theory Spec2Isabelle
  imports Complex_Main "HOL-Library.AList"
begin

section \<open>Python values, errors and dictionaries\<close>

text \<open>
  The cache stores values of Python type \<open>Any\<close>, and \<open>None\<close> is one of them: it is
  both a value a caller may store and the in-band result of a lookup that finds nothing.
  The constructor \<open>PyNone\<close> is Python's \<open>None\<close>, \<open>PyVal\<close> wraps every other object.
\<close>

datatype 'v py = PyNone | PyVal 'v

text \<open>The exceptions the code under study can raise.\<close>

datatype error = ValueError | KeyError | RuntimeError | AttributeError | IndexError

text \<open>
  A computation that may raise returns \<open>error + 'a\<close>; \<open>and_then m f\<close> runs \<open>m\<close> and, when it
  did not raise, continues with \<open>f\<close> (sequential composition of two Python statements).
\<close>

definition and_then :: "error + 'a \<Rightarrow> ('a \<Rightarrow> error + 'b) \<Rightarrow> error + 'b" where
  "and_then m f = (case m of Inl e \<Rightarrow> Inl e | Inr x \<Rightarrow> f x)"

text \<open>
  A Python \<open>dict\<close> is an association list in insertion order: \<open>d[k] = v\<close> is
  \<open>AList.update\<close> (an existing key keeps its position, a new key goes to the back),
  \<open>k in d\<close> is \<open>map_of d k \<noteq> None\<close>, \<open>len(d)\<close> is \<open>length d\<close>.
  \<open>del d[k]\<close> raises \<open>KeyError\<close> when the key is absent.
\<close>

definition dict_del :: "'a \<Rightarrow> ('a \<times> 'b) list \<Rightarrow> error + ('a \<times> 'b) list" where
  "dict_del k d = (case map_of d k of None \<Rightarrow> Inl KeyError | Some _ \<Rightarrow> Inr (AList.delete k d))"

text \<open>
  An \<open>OrderedDict\<close> whose values are all \<open>None\<close> (the frequency buckets of the LFU policy)
  is the list of its keys in insertion order.
\<close>

definition od_set :: "'a \<Rightarrow> 'a list \<Rightarrow> 'a list" where
  "od_set k b = (if k \<in> set b then b else b @ [k])"

definition od_del :: "'a \<Rightarrow> 'a list \<Rightarrow> error + 'a list" where
  "od_del k b = (if k \<in> set b then Inr (remove1 k b) else Inl KeyError)"

text \<open>
  \<open>defaultdict(OrderedDict)\<close>: reading \<open>d[f]\<close> for a missing \<open>f\<close> stores an empty bucket
  under \<open>f\<close> and returns it. \<open>dd_touch\<close> is that side effect, \<open>dd_read\<close> the bucket read.
\<close>

definition dd_touch :: "nat \<Rightarrow> (nat \<times> 'a list) list \<Rightarrow> (nat \<times> 'a list) list" where
  "dd_touch f d = (case map_of d f of None \<Rightarrow> AList.update f [] d | Some _ \<Rightarrow> d)"

definition dd_read :: "nat \<Rightarrow> (nat \<times> 'a list) list \<Rightarrow> 'a list" where
  "dd_read f d = (case map_of d f of None \<Rightarrow> [] | Some b \<Rightarrow> b)"

section \<open>Entries, statistics and the policy object (core/base.py)\<close>

text \<open>\<open>datetime.now()\<close> is an input of every operation that reads the clock.\<close>

type_synonym datetime = nat

record ('k, 'v) CacheEntry =
  key :: 'k
  val :: "'v py"
  timestamp :: datetime
  access_count :: nat
  entry_size :: int

record CacheStats =
  hits :: nat
  misses :: nat
  evictions :: nat
  current_size_stat :: nat
  max_size :: int

text \<open>
  \<open>DLinkedNode\<close> objects live in a store indexed by addresses; \<open>prev\<close> and \<open>next\<close> hold
  an address or \<open>None\<close>. The two sentinels are created with \<open>key = None\<close>.
\<close>

type_synonym addr = nat

record 'k DLinkedNode =
  nkey :: "'k option"
  prev :: "addr option"
  nxt :: "addr option"

record 'k FIFOState =
  insertion_queue :: "'k list"

record 'k LRUState =
  node_map :: "('k \<times> addr) list"
  heap :: "addr \<Rightarrow> 'k DLinkedNode"
  head :: addr
  tail :: addr
  fresh :: addr

record 'k LFUState =
  freq_map :: "(nat \<times> 'k list) list"
  freq_key :: "('k \<times> nat) list"
  min_freq :: nat

text \<open>The subclass of \<open>CachePolicy\<close> an object belongs to, with the subclass's own fields.\<close>

datatype 'k variant = FIFO "'k FIFOState" | LRU "'k LRUState" | LFU "'k LFUState"

record ('k, 'v) CachePolicy =
  capacity :: int
  name :: string
  cache :: "('k \<times> ('k, 'v) CacheEntry) list"
  stats :: CacheStats
  variant :: "'k variant"

definition current_size :: "('k, 'v) CachePolicy \<Rightarrow> nat" where
  "current_size p = length (cache p)"

definition is_full :: "('k, 'v) CachePolicy \<Rightarrow> bool" where
  "is_full p = (int (current_size p) \<ge> capacity p)"

definition is_empty :: "('k, 'v) CachePolicy \<Rightarrow> bool" where
  "is_empty p = (current_size p = 0)"

definition contains :: "'k \<Rightarrow> ('k, 'v) CachePolicy \<Rightarrow> bool" where
  "contains k p = (map_of (cache p) k \<noteq> None)"

definition keys :: "('k, 'v) CachePolicy \<Rightarrow> 'k list" where
  "keys p = map fst (cache p)"

text \<open>\<open>CachePolicy.__init__\<close>; the subclass constructors call it first.\<close>

definition init_policy :: "int \<Rightarrow> string \<Rightarrow> 'k variant \<Rightarrow> error + ('k, 'v) CachePolicy" where
  "init_policy c n v =
     (if c \<le> 0 then Inl ValueError
      else Inr \<lparr>capacity = c, name = n, cache = [],
                stats = \<lparr>hits = 0, misses = 0, evictions = 0, current_size_stat = 0, max_size = c\<rparr>,
                variant = v\<rparr>)"

text \<open>
  The two statements \<open>entry.timestamp = datetime.now(); entry.access_count += 1\<close> on the
  entry object stored under \<open>k\<close>.
\<close>

definition touch :: "datetime \<Rightarrow> ('k, 'v) CacheEntry \<Rightarrow> ('k, 'v) CacheEntry" where
  "touch now e = e\<lparr>timestamp := now, access_count := access_count e + 1\<rparr>"

definition touch_entry :: "'k \<Rightarrow> datetime \<Rightarrow> ('k, 'v) CachePolicy \<Rightarrow> ('k, 'v) CachePolicy" where
  "touch_entry k now p = p\<lparr>cache := AList.map_entry k (touch now) (cache p)\<rparr>"

definition count_eviction :: "('k, 'v) CachePolicy \<Rightarrow> ('k, 'v) CachePolicy" where
  "count_eviction p =
     p\<lparr>stats := (stats p)\<lparr>evictions := evictions (stats p) + 1,
                           current_size_stat := current_size p\<rparr>\<rparr>"

section \<open>FIFO hooks (core/fifo.py)\<close>

definition FIFOCache :: "int \<Rightarrow> string \<Rightarrow> error + ('k, 'v) CachePolicy" where
  "FIFOCache c n = init_policy c n (FIFO \<lparr>insertion_queue = []\<rparr>)"

definition fifo_evict :: "'k FIFOState \<Rightarrow> ('k, 'v) CachePolicy \<Rightarrow> error + ('k, 'v) CachePolicy" where
  "fifo_evict s p =
     (case insertion_queue s of
        [] \<Rightarrow> Inr p
      | oldest_key # rest \<Rightarrow>
          Inr (count_eviction
                (p\<lparr>cache := (if map_of (cache p) oldest_key \<noteq> None
                              then AList.delete oldest_key (cache p) else cache p),
                   variant := FIFO (s\<lparr>insertion_queue := rest\<rparr>)\<rparr>)))"

definition fifo_on_insert :: "'k \<Rightarrow> 'k FIFOState \<Rightarrow> 'k FIFOState" where
  "fifo_on_insert k s = s\<lparr>insertion_queue := insertion_queue s @ [k]\<rparr>"

definition fifo_on_delete :: "'k \<Rightarrow> 'k FIFOState \<Rightarrow> 'k FIFOState" where
  "fifo_on_delete k s = s\<lparr>insertion_queue := remove1 k (insertion_queue s)\<rparr>"

definition fifo_on_clear :: "'k FIFOState \<Rightarrow> 'k FIFOState" where
  "fifo_on_clear s = s\<lparr>insertion_queue := []\<rparr>"

definition peek_next_eviction :: "'k FIFOState \<Rightarrow> 'k option" where
  "peek_next_eviction s = (case insertion_queue s of [] \<Rightarrow> None | k # _ \<Rightarrow> Some k)"

section \<open>LRU hooks (core/lru.py)\<close>

text \<open>
  \<open>LRUCache.__init__\<close> allocates the two sentinels and links them to each other;
  \<open>fresh\<close> is the address the next \<open>DLinkedNode(...)\<close> gets.
\<close>

definition new_node :: "'k option \<Rightarrow> 'k DLinkedNode" where
  "new_node k = \<lparr>nkey = k, prev = None, nxt = None\<rparr>"

definition init_lru :: "'k LRUState" where
  "init_lru =
     \<lparr>node_map = [],
      heap = (\<lambda>_. new_node None)(0 := \<lparr>nkey = None, prev = None, nxt = Some 1\<rparr>,
                                  1 := \<lparr>nkey = None, prev = Some 0, nxt = None\<rparr>),
      head = 0, tail = 1, fresh = 2\<rparr>"

definition LRUCache :: "int \<Rightarrow> string \<Rightarrow> error + ('k, 'v) CachePolicy" where
  "LRUCache c n = init_policy c n (LRU init_lru)"

definition add_to_front :: "addr \<Rightarrow> 'k LRUState \<Rightarrow> error + 'k LRUState" where
  "add_to_front node s =
     (let h1 = (heap s)(node := (heap s node)\<lparr>nxt := nxt (heap s (head s))\<rparr>);
          h2 = h1(node := (h1 node)\<lparr>prev := Some (head s)\<rparr>)
      in case nxt (h2 (head s)) of
           None \<Rightarrow> Inl AttributeError
         | Some first \<Rightarrow>
             (let h3 = h2(first := (h2 first)\<lparr>prev := Some node\<rparr>);
                  h4 = h3(head s := (h3 (head s))\<lparr>nxt := Some node\<rparr>)
              in Inr (s\<lparr>heap := h4\<rparr>)))"

definition remove_node :: "addr \<Rightarrow> 'k LRUState \<Rightarrow> error + 'k LRUState" where
  "remove_node node s =
     (let h = heap s in
      case prev (h node) of
        None \<Rightarrow> Inl AttributeError
      | Some p \<Rightarrow>
          (let h1 = h(p := (h p)\<lparr>nxt := nxt (h node)\<rparr>) in
           case nxt (h1 node) of
             None \<Rightarrow> Inl AttributeError
           | Some n \<Rightarrow>
               (let h2 = h1(n := (h1 n)\<lparr>prev := prev (h1 node)\<rparr>);
                    h3 = h2(node := (h2 node)\<lparr>prev := None\<rparr>);
                    h4 = h3(node := (h3 node)\<lparr>nxt := None\<rparr>)
                in Inr (s\<lparr>heap := h4\<rparr>))))"

definition move_to_front :: "addr \<Rightarrow> 'k LRUState \<Rightarrow> error + 'k LRUState" where
  "move_to_front node s = and_then (remove_node node s) (add_to_front node)"

definition lru_evict :: "'k LRUState \<Rightarrow> ('k, 'v) CachePolicy \<Rightarrow> error + ('k, 'v) CachePolicy" where
  "lru_evict s p =
     (case prev (heap s (tail s)) of
        None \<Rightarrow> Inl AttributeError
      | Some lru_node \<Rightarrow>
          if lru_node = head s then Inr p
          else
            (let lru_key = nkey (heap s lru_node) in
             and_then (remove_node lru_node s) (\<lambda>s1.
               (let s2 = (case lru_key of
                            None \<Rightarrow> s1
                          | Some k \<Rightarrow> (if map_of (node_map s1) k \<noteq> None
                                       then s1\<lparr>node_map := AList.delete k (node_map s1)\<rparr> else s1));
                    c2 = (case lru_key of
                            None \<Rightarrow> cache p
                          | Some k \<Rightarrow> (if map_of (cache p) k \<noteq> None
                                       then AList.delete k (cache p) else cache p))
                in Inr (count_eviction (p\<lparr>cache := c2, variant := LRU s2\<rparr>))))))"

definition lru_on_access :: "'k \<Rightarrow> 'k LRUState \<Rightarrow> error + 'k LRUState" where
  "lru_on_access k s =
     (case map_of (node_map s) k of
        None \<Rightarrow> Inr s
      | Some node \<Rightarrow> move_to_front node s)"

definition lru_on_insert :: "'k \<Rightarrow> 'k LRUState \<Rightarrow> error + 'k LRUState" where
  "lru_on_insert k s =
     (let new = fresh s;
          s1 = s\<lparr>heap := (heap s)(new := new_node (Some k)), fresh := Suc new\<rparr>
      in and_then (add_to_front new s1) (\<lambda>s2.
           Inr (s2\<lparr>node_map := AList.update k new (node_map s2)\<rparr>)))"

definition lru_on_delete :: "'k \<Rightarrow> 'k LRUState \<Rightarrow> error + 'k LRUState" where
  "lru_on_delete k s =
     (case map_of (node_map s) k of
        None \<Rightarrow> Inr s
      | Some node \<Rightarrow>
          and_then (remove_node node s) (\<lambda>s1. Inr (s1\<lparr>node_map := AList.delete k (node_map s1)\<rparr>)))"

definition lru_on_clear :: "'k LRUState \<Rightarrow> 'k LRUState" where
  "lru_on_clear s =
     (let h1 = (heap s)(head s := (heap s (head s))\<lparr>nxt := Some (tail s)\<rparr>);
          h2 = h1(tail s := (h1 (tail s))\<lparr>prev := Some (head s)\<rparr>)
      in s\<lparr>node_map := [], heap := h2\<rparr>)"

definition peek_lru :: "'k LRUState \<Rightarrow> error + 'k option" where
  "peek_lru s =
     (case prev (heap s (tail s)) of
        None \<Rightarrow> Inl AttributeError
      | Some lru_node \<Rightarrow> if lru_node = head s then Inr None else Inr (nkey (heap s lru_node)))"

definition peek_mru :: "'k LRUState \<Rightarrow> error + 'k option" where
  "peek_mru s =
     (case nxt (heap s (head s)) of
        None \<Rightarrow> Inl AttributeError
      | Some mru_node \<Rightarrow> if mru_node = tail s then Inr None else Inr (nkey (heap s mru_node)))"

section \<open>LFU hooks (core/lfu.py)\<close>

definition LFUCache :: "int \<Rightarrow> string \<Rightarrow> error + ('k, 'v) CachePolicy" where
  "LFUCache c n = init_policy c n (LFU \<lparr>freq_map = [], freq_key = [], min_freq = 0\<rparr>)"

definition increment_frequency :: "'k \<Rightarrow> 'k LFUState \<Rightarrow> error + 'k LFUState" where
  "increment_frequency k s =
     (case map_of (freq_key s) k of
        None \<Rightarrow> Inl KeyError
      | Some current_freq \<Rightarrow>
          (let fm0 = dd_touch current_freq (freq_map s) in
           and_then (od_del k (dd_read current_freq fm0)) (\<lambda>b.
             (let fm1 = AList.update current_freq b fm0;
                  s1 = (if dd_read current_freq fm1 = []
                        then s\<lparr>freq_map := AList.delete current_freq fm1,
                               min_freq := (if current_freq = min_freq s
                                            then current_freq + 1 else min_freq s)\<rparr>
                        else s\<lparr>freq_map := fm1\<rparr>);
                  new_freq = current_freq + 1;
                  fm2 = dd_touch new_freq (freq_map s1);
                  fm3 = AList.update new_freq (od_set k (dd_read new_freq fm2)) fm2
              in Inr (s1\<lparr>freq_map := fm3, freq_key := AList.update k new_freq (freq_key s1)\<rparr>)))))"

definition lfu_evict :: "'k LFUState \<Rightarrow> ('k, 'v) CachePolicy \<Rightarrow> error + ('k, 'v) CachePolicy" where
  "lfu_evict s p =
     (if min_freq s = 0 then Inr p
      else
        (let fm0 = dd_touch (min_freq s) (freq_map s) in
         case dd_read (min_freq s) fm0 of
           [] \<Rightarrow> Inr (p\<lparr>variant := LFU (s\<lparr>freq_map := fm0\<rparr>)\<rparr>)
         | lfu_key # rest \<Rightarrow>
             (let fm1 = AList.update (min_freq s) rest fm0;
                  fm2 = (if rest = [] then AList.delete (min_freq s) fm1 else fm1);
                  fk = (if map_of (freq_key s) lfu_key \<noteq> None
                        then AList.delete lfu_key (freq_key s) else freq_key s);
                  c = (if map_of (cache p) lfu_key \<noteq> None
                       then AList.delete lfu_key (cache p) else cache p)
              in Inr (count_eviction
                       (p\<lparr>cache := c, variant := LFU (s\<lparr>freq_map := fm2, freq_key := fk\<rparr>)\<rparr>)))))"

definition lfu_on_insert :: "'k \<Rightarrow> 'k LFUState \<Rightarrow> 'k LFUState" where
  "lfu_on_insert k s =
     (let fm0 = dd_touch 1 (freq_map s);
          fm1 = AList.update 1 (od_set k (dd_read 1 fm0)) fm0
      in s\<lparr>freq_map := fm1, freq_key := AList.update k 1 (freq_key s), min_freq := 1\<rparr>)"

definition lfu_on_delete :: "'k \<Rightarrow> 'k LFUState \<Rightarrow> 'k LFUState" where
  "lfu_on_delete k s =
     (case map_of (freq_key s) k of
        None \<Rightarrow> s
      | Some freq \<Rightarrow>
          (let s1 =
             (case map_of (freq_map s) freq of
                None \<Rightarrow> s
              | Some b \<Rightarrow>
                  if k \<in> set b then
                    (let fm1 = AList.update freq (remove1 k b) (freq_map s) in
                     if remove1 k b = [] then
                       (let fm2 = AList.delete freq fm1 in
                        if freq = min_freq s
                        then s\<lparr>freq_map := fm2,
                               min_freq := (if fm2 \<noteq> [] then min_list (map fst fm2) else 0)\<rparr>
                        else s\<lparr>freq_map := fm2\<rparr>)
                     else s\<lparr>freq_map := fm1\<rparr>)
                  else s)
           in s1\<lparr>freq_key := AList.delete k (freq_key s1)\<rparr>))"

definition lfu_on_clear :: "'k LFUState \<Rightarrow> 'k LFUState" where
  "lfu_on_clear s = s\<lparr>freq_map := [], freq_key := [], min_freq := 0\<rparr>"

definition peek_lfu :: "'k LFUState \<Rightarrow> 'k option" where
  "peek_lfu s =
     (if min_freq s = 0 then None
      else case dd_read (min_freq s) (freq_map s) of [] \<Rightarrow> None | k # _ \<Rightarrow> Some k)"

definition get_key_frequency :: "'k \<Rightarrow> 'k LFUState \<Rightarrow> nat option" where
  "get_key_frequency k s = map_of (freq_key s) k"

section \<open>The hooks, dispatched on the subclass\<close>

definition evict :: "('k, 'v) CachePolicy \<Rightarrow> error + ('k, 'v) CachePolicy" where
  "evict p =
     (case variant p of
        FIFO s \<Rightarrow> fifo_evict s p
      | LRU s \<Rightarrow> lru_evict s p
      | LFU s \<Rightarrow> lfu_evict s p)"

definition on_access :: "'k \<Rightarrow> datetime \<Rightarrow> ('k, 'v) CachePolicy \<Rightarrow> error + ('k, 'v) CachePolicy" where
  "on_access k now p =
     (case variant p of
        FIFO s \<Rightarrow> Inr p
      | LRU s \<Rightarrow>
          (let p1 = touch_entry k now p in
           and_then (lru_on_access k s) (\<lambda>s'. Inr (p1\<lparr>variant := LRU s'\<rparr>)))
      | LFU s \<Rightarrow>
          (let p1 = touch_entry k now p in
           and_then (increment_frequency k s) (\<lambda>s'. Inr (p1\<lparr>variant := LFU s'\<rparr>))))"

definition on_insert :: "'k \<Rightarrow> ('k, 'v) CachePolicy \<Rightarrow> error + ('k, 'v) CachePolicy" where
  "on_insert k p =
     (case variant p of
        FIFO s \<Rightarrow> Inr (p\<lparr>variant := FIFO (fifo_on_insert k s)\<rparr>)
      | LRU s \<Rightarrow> and_then (lru_on_insert k s) (\<lambda>s'. Inr (p\<lparr>variant := LRU s'\<rparr>))
      | LFU s \<Rightarrow> Inr (p\<lparr>variant := LFU (lfu_on_insert k s)\<rparr>))"

definition on_update :: "'k \<Rightarrow> datetime \<Rightarrow> ('k, 'v) CachePolicy \<Rightarrow> error + ('k, 'v) CachePolicy" where
  "on_update k now p =
     (case variant p of
        FIFO s \<Rightarrow> Inr p
      | LRU s \<Rightarrow> on_access k now p
      | LFU s \<Rightarrow> on_access k now p)"

definition on_delete :: "'k \<Rightarrow> ('k, 'v) CachePolicy \<Rightarrow> error + ('k, 'v) CachePolicy" where
  "on_delete k p =
     (case variant p of
        FIFO s \<Rightarrow> Inr (p\<lparr>variant := FIFO (fifo_on_delete k s)\<rparr>)
      | LRU s \<Rightarrow> and_then (lru_on_delete k s) (\<lambda>s'. Inr (p\<lparr>variant := LRU s'\<rparr>))
      | LFU s \<Rightarrow> Inr (p\<lparr>variant := LFU (lfu_on_delete k s)\<rparr>))"

definition on_clear :: "('k, 'v) CachePolicy \<Rightarrow> ('k, 'v) CachePolicy" where
  "on_clear p =
     (case variant p of
        FIFO s \<Rightarrow> p\<lparr>variant := FIFO (fifo_on_clear s)\<rparr>
      | LRU s \<Rightarrow> p\<lparr>variant := LRU (lru_on_clear s)\<rparr>
      | LFU s \<Rightarrow> p\<lparr>variant := LFU (lfu_on_clear s)\<rparr>)"

section \<open>The public operations of a policy (core/base.py)\<close>

definition insert_entry ::
  "'k \<Rightarrow> 'v py \<Rightarrow> int \<Rightarrow> datetime \<Rightarrow> ('k, 'v) CachePolicy \<Rightarrow> error + ('k, 'v) CachePolicy" where
  "insert_entry k v sz now p =
     (let entry = \<lparr>key = k, val = v, timestamp = now, access_count = 1, entry_size = sz\<rparr>;
          p1 = p\<lparr>cache := AList.update k entry (cache p)\<rparr>;
          p2 = p1\<lparr>stats := (stats p1)\<lparr>current_size_stat := current_size p1\<rparr>\<rparr>
      in on_insert k p2)"

definition update_entry ::
  "'k \<Rightarrow> 'v py \<Rightarrow> int \<Rightarrow> datetime \<Rightarrow> ('k, 'v) CachePolicy \<Rightarrow> error + ('k, 'v) CachePolicy" where
  "update_entry k v sz now p =
     (case map_of (cache p) k of
        None \<Rightarrow> Inl KeyError
      | Some entry \<Rightarrow>
          on_update k now
            (p\<lparr>cache := AList.update k (entry\<lparr>val := v, entry_size := sz\<rparr>) (cache p)\<rparr>))"

definition get ::
  "'k \<Rightarrow> datetime \<Rightarrow> ('k, 'v) CachePolicy \<Rightarrow> error + ('v py \<times> ('k, 'v) CachePolicy)" where
  "get k now p =
     (case map_of (cache p) k of
        Some entry \<Rightarrow>
          and_then (on_access k now (p\<lparr>stats := (stats p)\<lparr>hits := hits (stats p) + 1\<rparr>\<rparr>))
            (\<lambda>p'. Inr (val entry, p'))
      | None \<Rightarrow> Inr (PyNone, p\<lparr>stats := (stats p)\<lparr>misses := misses (stats p) + 1\<rparr>\<rparr>))"

definition put ::
  "'k \<Rightarrow> 'v py \<Rightarrow> int \<Rightarrow> datetime \<Rightarrow> ('k, 'v) CachePolicy \<Rightarrow> error + ('k, 'v) CachePolicy" where
  "put k v sz now p =
     (if map_of (cache p) k \<noteq> None then update_entry k v sz now p
      else and_then (if is_full p then evict p else Inr p) (insert_entry k v sz now))"

definition delete :: "'k \<Rightarrow> ('k, 'v) CachePolicy \<Rightarrow> error + (bool \<times> ('k, 'v) CachePolicy)" where
  "delete k p =
     (if map_of (cache p) k \<noteq> None then
        and_then (on_delete k p) (\<lambda>p1.
          and_then (dict_del k (cache p1)) (\<lambda>c.
            (let p2 = p1\<lparr>cache := c\<rparr>
             in Inr (True, p2\<lparr>stats := (stats p2)\<lparr>current_size_stat := current_size p2\<rparr>\<rparr>))))
      else Inr (False, p))"

definition clear :: "('k, 'v) CachePolicy \<Rightarrow> ('k, 'v) CachePolicy" where
  "clear p =
     (let p1 = on_clear (p\<lparr>cache := []\<rparr>)
      in p1\<lparr>stats := (stats p1)\<lparr>current_size_stat := 0\<rparr>\<rparr>)"

definition reset_stats :: "('k, 'v) CachePolicy \<Rightarrow> ('k, 'v) CachePolicy" where
  "reset_stats p =
     p\<lparr>stats := \<lparr>hits = 0, misses = 0, evictions = 0,
                  current_size_stat = current_size p, max_size = capacity p\<rparr>\<rparr>"

section \<open>Sequences of public operations on one policy\<close>

datatype ('k, 'v) op =
    Get 'k datetime
  | Put 'k "'v py" int datetime
  | Delete 'k
  | Clear
  | ResetStats

fun step :: "('k, 'v) op \<Rightarrow> ('k, 'v) CachePolicy \<Rightarrow> error + ('k, 'v) CachePolicy" where
  "step (Get k now) p = and_then (get k now p) (\<lambda>r. Inr (snd r))"
| "step (Put k v sz now) p = put k v sz now p"
| "step (Delete k) p = and_then (delete k p) (\<lambda>r. Inr (snd r))"
| "step Clear p = Inr (clear p)"
| "step ResetStats p = Inr (reset_stats p)"

fun run :: "('k, 'v) op list \<Rightarrow> ('k, 'v) CachePolicy \<Rightarrow> error + ('k, 'v) CachePolicy" where
  "run [] p = Inr p"
| "run (x # xs) p = and_then (step x p) (run xs)"

text \<open>
  A policy instance is what one of the three constructors returned, after any sequence of
  public operations that did not raise.
\<close>

definition constructed :: "('k, 'v) CachePolicy \<Rightarrow> bool" where
  "constructed p \<longleftrightarrow>
     (\<exists>c n. FIFOCache c n = Inr p \<or> LRUCache c n = Inr p \<or> LFUCache c n = Inr p)"

definition reachable :: "('k, 'v) CachePolicy \<Rightarrow> bool" where
  "reachable p \<longleftrightarrow> (\<exists>p0 ops. constructed p0 \<and> run ops p0 = Inr p)"

text \<open>What \<open>get\<close> returns for a key: the stored value, or \<open>None\<close> when the key is absent.\<close>

definition stored :: "'k \<Rightarrow> ('k, 'v) CachePolicy \<Rightarrow> 'v py" where
  "stored k p = (case map_of (cache p) k of None \<Rightarrow> PyNone | Some e \<Rightarrow> val e)"

section \<open>The multilevel hierarchy (multilevel/cache_hierarchy.py)\<close>

text \<open>
  Latencies are Python floats; they are modelled as real numbers, so the rounding of
  floating-point addition and division is outside the model. Each level owns its policy
  object (no policy object is shared between two levels).
\<close>

record LevelStats =
  ls_name :: string
  ls_hits :: nat
  ls_misses :: nat
  promotions :: nat
  demotions :: nat
  ls_total_latency_ms :: real

record ('k, 'v) CacheLevel =
  lcache :: "('k, 'v) CachePolicy"
  lname :: string
  latency_ms :: real
  lstats :: LevelStats

record ('k, 'v) CacheHierarchy =
  hname :: string
  levels :: "('k, 'v) CacheLevel list"
  total_hits :: nat
  total_misses :: nat
  total_promotions :: nat
  total_latency_ms :: real

definition new_level_stats :: "string \<Rightarrow> LevelStats" where
  "new_level_stats n =
     \<lparr>ls_name = n, ls_hits = 0, ls_misses = 0, promotions = 0, demotions = 0,
      ls_total_latency_ms = 0\<rparr>"

definition new_hierarchy :: "string \<Rightarrow> ('k, 'v) CacheHierarchy" where
  "new_hierarchy n =
     \<lparr>hname = n, levels = [], total_hits = 0, total_misses = 0, total_promotions = 0,
      total_latency_ms = 0\<rparr>"

text \<open>
  \<open>add_level\<close> with a name of its declared type \<open>str\<close>; the branch that replaces a
  \<open>None\<close> name by \<open>"L<n>"\<close> is not modelled.
\<close>

definition add_level ::
  "('k, 'v) CachePolicy \<Rightarrow> string \<Rightarrow> real \<Rightarrow> ('k, 'v) CacheHierarchy
     \<Rightarrow> error + ('k, 'v) CacheHierarchy" where
  "add_level c n lat h =
     (if n \<in> set (map lname (levels h)) then Inl ValueError
      else Inr (h\<lparr>levels := levels h @
                  [\<lparr>lcache = c, lname = n, latency_ms = lat, lstats = new_level_stats n\<rparr>]\<rparr>))"

text \<open>
  The loop of \<open>CacheHierarchy.get\<close> over the levels from index \<open>i\<close> on, with the running
  \<open>cumulative_latency\<close>. It returns the levels as the loop left them and how the loop ended:
  at the first level whose policy returned something other than \<open>None\<close>, or by exhausting
  the levels. \<open>tg i\<close> is the clock reading during the lookup in level \<open>i\<close>.
\<close>

datatype 'v scan_result = Hit nat "'v py" real | Exhausted

fun scan_levels ::
  "'k \<Rightarrow> (nat \<Rightarrow> datetime) \<Rightarrow> nat \<Rightarrow> real \<Rightarrow> ('k, 'v) CacheLevel list
     \<Rightarrow> error + (('k, 'v) CacheLevel list \<times> 'v scan_result)" where
  "scan_levels k tg i cum [] = Inr ([], Exhausted)"
| "scan_levels k tg i cum (level # rest) =
     (let cumulative_latency = cum + latency_ms level;
          st1 = (lstats level)\<lparr>ls_total_latency_ms :=
                   ls_total_latency_ms (lstats level) + latency_ms level\<rparr>
      in and_then (get k (tg i) (lcache level)) (\<lambda>r.
           if fst r \<noteq> PyNone then
             Inr (level\<lparr>lcache := snd r, lstats := st1\<lparr>ls_hits := ls_hits st1 + 1\<rparr>\<rparr> # rest,
                  Hit i (fst r) cumulative_latency)
           else
             and_then (scan_levels k tg (Suc i) cumulative_latency rest) (\<lambda>r'.
               Inr (level\<lparr>lcache := snd r, lstats := st1\<lparr>ls_misses := ls_misses st1 + 1\<rparr>\<rparr>
                      # fst r', snd r'))))"

text \<open>
  \<open>_promote_to_upper_levels\<close>: the loop over \<open>range(from_level_index)\<close>; \<open>tp j\<close> is the
  clock reading during the \<open>put\<close> into level \<open>j\<close>.
\<close>

fun promote_loop ::
  "'k \<Rightarrow> 'v py \<Rightarrow> (nat \<Rightarrow> datetime) \<Rightarrow> nat list \<Rightarrow> ('k, 'v) CacheHierarchy
     \<Rightarrow> error + ('k, 'v) CacheHierarchy" where
  "promote_loop k v tp [] h = Inr h"
| "promote_loop k v tp (j # js) h =
     (if j < length (levels h) then
        (let upper_level = levels h ! j in
         and_then (put k v 1 (tp j) (lcache upper_level)) (\<lambda>c.
           promote_loop k v tp js
             (h\<lparr>levels := (levels h)
                    [j := upper_level\<lparr>lcache := c,
                           lstats := (lstats upper_level)
                              \<lparr>promotions := promotions (lstats upper_level) + 1\<rparr>\<rparr>],
                total_promotions := total_promotions h + 1\<rparr>)))
      else Inl IndexError)"

definition promote_to_upper_levels ::
  "'k \<Rightarrow> 'v py \<Rightarrow> (nat \<Rightarrow> datetime) \<Rightarrow> nat \<Rightarrow> ('k, 'v) CacheHierarchy
     \<Rightarrow> error + ('k, 'v) CacheHierarchy" where
  "promote_to_upper_levels k v tp from_level_index h = promote_loop k v tp [0..<from_level_index] h"

definition hget ::
  "'k \<Rightarrow> (nat \<Rightarrow> datetime) \<Rightarrow> (nat \<Rightarrow> datetime) \<Rightarrow> ('k, 'v) CacheHierarchy
     \<Rightarrow> error + ('v py \<times> ('k, 'v) CacheHierarchy)" where
  "hget k tg tp h =
     and_then (scan_levels k tg 0 0 (levels h)) (\<lambda>r.
       case snd r of
         Hit level_index v cumulative_latency \<Rightarrow>
           (let h1 = h\<lparr>levels := fst r, total_hits := total_hits h + 1,
                       total_latency_ms := total_latency_ms h + cumulative_latency\<rparr>
            in if level_index > 0
               then and_then (promote_to_upper_levels k v tp level_index h1) (\<lambda>h2. Inr (v, h2))
               else Inr (v, h1))
       | Exhausted \<Rightarrow>
           Inr (PyNone, h\<lparr>levels := fst r, total_misses := total_misses h + 1\<rparr>))"

text \<open>\<open>CacheHierarchy.put\<close>: the loop over the levels, \<open>tp i\<close> the clock reading at level \<open>i\<close>.\<close>

fun put_levels ::
  "'k \<Rightarrow> 'v py \<Rightarrow> (nat \<Rightarrow> datetime) \<Rightarrow> nat \<Rightarrow> ('k, 'v) CacheLevel list
     \<Rightarrow> error + ('k, 'v) CacheLevel list" where
  "put_levels k v tp i [] = Inr []"
| "put_levels k v tp i (level # rest) =
     and_then (put k v 1 (tp i) (lcache level)) (\<lambda>c.
       and_then (put_levels k v tp (Suc i) rest) (\<lambda>rest'.
         Inr (level\<lparr>lcache := c\<rparr> # rest')))"

definition hput ::
  "'k \<Rightarrow> 'v py \<Rightarrow> (nat \<Rightarrow> datetime) \<Rightarrow> ('k, 'v) CacheHierarchy
     \<Rightarrow> error + ('k, 'v) CacheHierarchy" where
  "hput k v tp h =
     (if levels h = [] then Inl RuntimeError
      else and_then (put_levels k v tp 0 (levels h)) (\<lambda>ls. Inr (h\<lparr>levels := ls\<rparr>)))"

definition hcontains :: "'k \<Rightarrow> ('k, 'v) CacheHierarchy \<Rightarrow> bool" where
  "hcontains k h = (\<exists>level \<in> set (levels h). contains k (lcache level))"

text \<open>The \<open>global\<close> part of \<open>get_all_stats\<close> that depends on the running totals.\<close>

definition total_accesses :: "('k, 'v) CacheHierarchy \<Rightarrow> nat" where
  "total_accesses h = total_hits h + total_misses h"

definition avg_latency_ms :: "('k, 'v) CacheHierarchy \<Rightarrow> real" where
  "avg_latency_ms h =
     (if total_accesses h > 0 then total_latency_ms h / real (total_accesses h) else 0)"

definition global_hit_rate :: "('k, 'v) CacheHierarchy \<Rightarrow> real" where
  "global_hit_rate h =
     (if total_accesses h > 0 then real (total_hits h) / real (total_accesses h) else 0)"

text \<open>A hierarchy whose levels hold policy instances.\<close>

definition hierarchy_ok :: "('k, 'v) CacheHierarchy \<Rightarrow> bool" where
  "hierarchy_ok h \<longleftrightarrow> (\<forall>level \<in> set (levels h). reachable (lcache level))"

section \<open>Invariants of the three policies\<close>

text \<open>
  The claims are about policy objects as the constructors return them and the public
  operations leave them. The predicates below say what such an object looks like; they are
  shown to hold initially and to be kept by every public operation. \<open>K\<close> is the key
  set of \<open>_cache\<close>.
\<close>

subsection \<open>FIFO: the queue holds the cached keys, once each\<close>

definition fifo_inv :: "'k set \<Rightarrow> 'k FIFOState \<Rightarrow> bool" where
  "fifo_inv K s \<longleftrightarrow> distinct (insertion_queue s) \<and> set (insertion_queue s) = K"

subsection \<open>LFU: buckets and the key-to-frequency map agree\<close>

text \<open>
  \<open>lfu_struct\<close> is the part that also holds between \<open>_evict\<close> and the insertion
  that follows it inside \<open>put\<close>; \<open>min_freq_ok\<close> holds again once \<open>put\<close> has finished.
\<close>

definition lfu_struct :: "'k set \<Rightarrow> 'k LFUState \<Rightarrow> bool" where
  "lfu_struct K s \<longleftrightarrow>
     distinct (map fst (freq_key s)) \<and> distinct (map fst (freq_map s)) \<and>
     dom (map_of (freq_key s)) = K \<and>
     (\<forall>f b. map_of (freq_map s) f = Some b \<longrightarrow> b \<noteq> [] \<and> distinct b \<and> 0 < f) \<and>
     (\<forall>k f. map_of (freq_key s) k = Some f \<longleftrightarrow>
            (\<exists>b. map_of (freq_map s) f = Some b \<and> k \<in> set b))"

definition min_freq_ok :: "'k LFUState \<Rightarrow> bool" where
  "min_freq_ok s \<longleftrightarrow>
     (if freq_map s = [] then min_freq s = 0
      else min_freq s \<in> dom (map_of (freq_map s)) \<and>
           (\<forall>f \<in> dom (map_of (freq_map s)). min_freq s \<le> f))"

definition lfu_inv :: "'k set \<Rightarrow> 'k LFUState \<Rightarrow> bool" where
  "lfu_inv K s \<longleftrightarrow> lfu_struct K s \<and> min_freq_ok s"

subsection \<open>LRU: the nodes between the sentinels form a doubly linked list\<close>

text \<open>
  \<open>linked h as\<close>: every address of the list points to its successor with \<open>next\<close>, and
  the successor points back with \<open>prev\<close>. \<open>lru_list s as\<close>: from the head sentinel through
  the nodes \<open>as\<close> to the tail sentinel is such a list, without repetition, of allocated
  nodes that carry a key. \<open>lru_map\<close>: \<open>_node_map\<close> maps exactly the cached keys, each to
  the node in the list that carries it.
\<close>

fun linked :: "(addr \<Rightarrow> 'k DLinkedNode) \<Rightarrow> addr list \<Rightarrow> bool" where
  "linked h (a # b # r) = (nxt (h a) = Some b \<and> prev (h b) = Some a \<and> linked h (b # r))"
| "linked h [a] = True"
| "linked h [] = True"

definition lru_list :: "'k LRUState \<Rightarrow> addr list \<Rightarrow> bool" where
  "lru_list s as \<longleftrightarrow>
     linked (heap s) (head s # as @ [tail s]) \<and> distinct (head s # as @ [tail s]) \<and>
     (\<forall>a \<in> set (head s # as @ [tail s]). a < fresh s) \<and>
     (\<forall>a \<in> set as. nkey (heap s a) \<noteq> None)"

definition lru_map :: "'k set \<Rightarrow> 'k LRUState \<Rightarrow> addr list \<Rightarrow> bool" where
  "lru_map K s as \<longleftrightarrow>
     distinct (map fst (node_map s)) \<and> dom (map_of (node_map s)) = K \<and>
     (\<forall>k a. map_of (node_map s) k = Some a \<longleftrightarrow> a \<in> set as \<and> nkey (heap s a) = Some k)"

definition lru_inv :: "'k set \<Rightarrow> 'k LRUState \<Rightarrow> bool" where
  "lru_inv K s \<longleftrightarrow> (\<exists>as. lru_list s as \<and> lru_map K s as)"

subsection \<open>The policy object\<close>

definition base_inv :: "('k, 'v) CachePolicy \<Rightarrow> bool" where
  "base_inv p \<longleftrightarrow>
     0 < capacity p \<and> distinct (map fst (cache p)) \<and> int (length (cache p)) \<le> capacity p \<and>
     current_size_stat (stats p) = length (cache p) \<and> max_size (stats p) = capacity p"

definition variant_inv0 :: "'k set \<Rightarrow> 'k variant \<Rightarrow> bool" where
  "variant_inv0 K v =
     (case v of FIFO s \<Rightarrow> fifo_inv K s | LRU s \<Rightarrow> lru_inv K s | LFU s \<Rightarrow> lfu_struct K s)"

definition variant_inv :: "'k set \<Rightarrow> 'k variant \<Rightarrow> bool" where
  "variant_inv K v =
     (case v of FIFO s \<Rightarrow> fifo_inv K s | LRU s \<Rightarrow> lru_inv K s | LFU s \<Rightarrow> lfu_inv K s)"

definition pinv :: "('k, 'v) CachePolicy \<Rightarrow> bool" where
  "pinv p \<longleftrightarrow> base_inv p \<and> variant_inv (dom (map_of (cache p))) (variant p)"

text \<open>
  What the hooks do to the entry and to the variant's own fields. \<open>accessed\<close> is the
  \<open>_cache\<close> after \<open>_on_access\<close>; \<open>access_post\<close>, \<open>evict_post\<close> and \<open>insert_post\<close>
  relate the variant's fields before and after the hook; \<open>new_entry\<close> is the entry
  \<open>_insert_entry\<close> creates (\<open>__post_init__\<close> turns the default access count 0 into 1).
\<close>

definition accessed ::
  "'k \<Rightarrow> datetime \<Rightarrow> 'k variant \<Rightarrow> ('k \<times> ('k, 'v) CacheEntry) list \<Rightarrow> ('k \<times> ('k, 'v) CacheEntry) list" where
  "accessed k now v c = (case v of FIFO _ \<Rightarrow> c | _ \<Rightarrow> AList.map_entry k (touch now) c)"

definition access_post :: "'k \<Rightarrow> 'k variant \<Rightarrow> 'k variant \<Rightarrow> bool" where
  "access_post k v v' =
     (case v of
        FIFO s \<Rightarrow> v' = v
      | LRU s \<Rightarrow> (\<exists>s'. v' = LRU s' \<and> peek_mru s' = Inr (Some k))
      | LFU s \<Rightarrow> (\<exists>s' f. v' = LFU s' \<and> map_of (freq_key s) k = Some f \<and>
                    map_of (freq_key s') k = Some (Suc f) \<and>
                    dd_read (Suc f) (freq_map s') = dd_read (Suc f) (freq_map s) @ [k]))"

definition evict_post :: "'k \<Rightarrow> 'k variant \<Rightarrow> bool" where
  "evict_post x v =
     (case v of
        FIFO s \<Rightarrow> peek_next_eviction s = Some x
      | LRU s \<Rightarrow> peek_lru s = Inr (Some x)
      | LFU s \<Rightarrow> peek_lfu s = Some x \<and> map_of (freq_key s) x = Some (min_freq s))"

definition insert_post :: "'k \<Rightarrow> 'k variant \<Rightarrow> 'k variant \<Rightarrow> bool" where
  "insert_post k v v' =
     (case v of
        FIFO s \<Rightarrow> (\<exists>s'. v' = FIFO s' \<and> insertion_queue s' = insertion_queue s @ [k])
      | LRU s \<Rightarrow> (\<exists>s'. v' = LRU s' \<and> peek_mru s' = Inr (Some k))
      | LFU s \<Rightarrow> (\<exists>s'. v' = LFU s' \<and> map_of (freq_key s') k = Some 1 \<and> min_freq s' = 1 \<and>
                    dd_read 1 (freq_map s') = dd_read 1 (freq_map s) @ [k]))"

definition same_kind :: "'k variant \<Rightarrow> 'k variant \<Rightarrow> bool" where
  "same_kind v v' =
     (case v of FIFO _ \<Rightarrow> (\<exists>s. v' = FIFO s) | LRU _ \<Rightarrow> (\<exists>s. v' = LRU s) | LFU _ \<Rightarrow> (\<exists>s. v' = LFU s))"

definition new_entry :: "'k \<Rightarrow> 'v py \<Rightarrow> int \<Rightarrow> datetime \<Rightarrow> ('k, 'v) CacheEntry" where
  "new_entry k v sz now = \<lparr>key = k, val = v, timestamp = now, access_count = 1, entry_size = sz\<rparr>"

subsection \<open>Levels of a hierarchy before and after an operation\<close>

definition missed :: "('k, 'v) CacheLevel \<Rightarrow> ('k, 'v) CacheLevel \<Rightarrow> bool" where
  "missed l l' \<longleftrightarrow>
     reachable (lcache l') \<and> lname l' = lname l \<and> latency_ms l' = latency_ms l \<and>
     lstats l' = (lstats l)\<lparr>ls_total_latency_ms := ls_total_latency_ms (lstats l) + latency_ms l,
                            ls_misses := ls_misses (lstats l) + 1\<rparr>"

definition scanned :: "('k, 'v) CacheLevel \<Rightarrow> ('k, 'v) CacheLevel \<Rightarrow> bool" where
  "scanned l l' \<longleftrightarrow>
     reachable (lcache l') \<and> lname l' = lname l \<and> latency_ms l' = latency_ms l \<and>
     (\<forall>k'. stored k' (lcache l') = stored k' (lcache l)) \<and>
     (\<forall>k'. contains k' (lcache l') = contains k' (lcache l)) \<and>
     promotions (lstats l') = promotions (lstats l)"

definition promoted :: "'k \<Rightarrow> 'v py \<Rightarrow> ('k, 'v) CacheLevel \<Rightarrow> ('k, 'v) CacheLevel \<Rightarrow> bool" where
  "promoted k v l l' \<longleftrightarrow>
     reachable (lcache l') \<and> lname l' = lname l \<and> latency_ms l' = latency_ms l \<and>
     stored k (lcache l') = v \<and> contains k (lcache l') \<and>
     lstats l' = (lstats l)\<lparr>promotions := promotions (lstats l) + 1\<rparr>"

definition written :: "'k \<Rightarrow> 'v py \<Rightarrow> ('k, 'v) CacheLevel \<Rightarrow> ('k, 'v) CacheLevel \<Rightarrow> bool" where
  "written k v l l' \<longleftrightarrow>
     reachable (lcache l') \<and> l' = l\<lparr>lcache := lcache l'\<rparr> \<and>
     stored k (lcache l') = v \<and> contains k (lcache l')"

section \<open>Example instances\<close>

text \<open>
  Concrete policies and hierarchies on which the theorems below are instantiated. The
  first three are what the constructors return; the others are reached from them by public
  operations. \<open>at_time t\<close> is a clock that reads \<open>t\<close> at every level.
\<close>

definition example_fifo :: "(nat, nat) CachePolicy" where
  "example_fifo =
     \<lparr>capacity = 1, name = ''FIFO'', cache = [],
      stats = \<lparr>hits = 0, misses = 0, evictions = 0, current_size_stat = 0, max_size = 1\<rparr>,
      variant = FIFO \<lparr>insertion_queue = []\<rparr>\<rparr>"

definition example_lru :: "(nat, nat) CachePolicy" where
  "example_lru =
     \<lparr>capacity = 2, name = ''LRUCache'', cache = [],
      stats = \<lparr>hits = 0, misses = 0, evictions = 0, current_size_stat = 0, max_size = 2\<rparr>,
      variant = LRU init_lru\<rparr>"

definition example_lfu :: "(nat, nat) CachePolicy" where
  "example_lfu =
     \<lparr>capacity = 2, name = ''LFUCache'', cache = [],
      stats = \<lparr>hits = 0, misses = 0, evictions = 0, current_size_stat = 0, max_size = 2\<rparr>,
      variant = LFU \<lparr>freq_map = [], freq_key = [], min_freq = 0\<rparr>\<rparr>"

definition the_lru :: "'k variant \<Rightarrow> 'k LRUState" where
  "the_lru v = (case v of LRU s \<Rightarrow> s | _ \<Rightarrow> init_lru)"

definition the_lfu :: "'k variant \<Rightarrow> 'k LFUState" where
  "the_lfu v = (case v of LFU s \<Rightarrow> s | _ \<Rightarrow> \<lparr>freq_map = [], freq_key = [], min_freq = 0\<rparr>)"

definition example_lfu_full :: "(nat, nat) CachePolicy" where
  "example_lfu_full =
     projr (run [Put 1 (PyVal 10) 1 0, Put 2 (PyVal 20) 1 1, Get 1 2] example_lfu)"

definition example_lru_full :: "(nat, nat) CachePolicy" where
  "example_lru_full =
     projr (run [Put 1 (PyVal 10) 1 0, Put 2 (PyVal 20) 1 1, Get 1 2] example_lru)"

definition example_fifo_one :: "(nat, nat) CachePolicy" where
  "example_fifo_one = projr (run [Put 1 (PyVal 10) 1 0] example_fifo)"

text \<open>
  The scenario of \<open>test_mixed_operations_maintain_consistency\<close> (tests/unit/test_lfu.py) on an
  LFU policy of capacity 3, with the keys \<open>a\<close>, \<open>b\<close>, \<open>c\<close>, \<open>d\<close> written 1, 2, 3, 4:
  \<open>example_lfu_mixed9\<close> is the state before the last \<open>get\<close>, \<open>example_lfu_mixed\<close> the
  state after it.
\<close>

definition example_lfu3 :: "(nat, nat) CachePolicy" where
  "example_lfu3 =
     \<lparr>capacity = 3, name = ''LFUCache'', cache = [],
      stats = \<lparr>hits = 0, misses = 0, evictions = 0, current_size_stat = 0, max_size = 3\<rparr>,
      variant = LFU \<lparr>freq_map = [], freq_key = [], min_freq = 0\<rparr>\<rparr>"

definition mixed_ops :: "(nat, nat) op list" where
  "mixed_ops =
     [Put 1 (PyVal 1) 1 0, Put 2 (PyVal 2) 1 1, Put 3 (PyVal 3) 1 2, Get 1 3,
      Put 1 (PyVal 10) 1 4, Get 2 5, Delete 3, Put 4 (PyVal 4) 1 6, Get 1 7]"

definition example_lfu_mixed9 :: "(nat, nat) CachePolicy" where
  "example_lfu_mixed9 = projr (run mixed_ops example_lfu3)"

definition example_lfu_mixed :: "(nat, nat) CachePolicy" where
  "example_lfu_mixed = projr (run (mixed_ops @ [Get 4 8]) example_lfu3)"

definition at_time :: "datetime \<Rightarrow> nat \<Rightarrow> datetime" where
  "at_time t i = t"

definition example_level :: "string \<Rightarrow> real \<Rightarrow> (nat, nat) CachePolicy \<Rightarrow> (nat, nat) CacheLevel" where
  "example_level n lat c = \<lparr>lcache = c, lname = n, latency_ms = lat, lstats = new_level_stats n\<rparr>"

definition example_h3 :: "(nat, nat) CacheHierarchy" where
  "example_h3 =
     \<lparr>hname = ''MemoryHierarchy'',
      levels = [example_level ''L1'' 1 example_fifo, example_level ''L2'' 5 example_fifo,
                example_level ''L3'' 20 example_fifo_one],
      total_hits = 0, total_misses = 0, total_promotions = 0, total_latency_ms = 0\<rparr>"

definition example_h1 :: "(nat, nat) CacheHierarchy" where
  "example_h1 =
     \<lparr>hname = ''MemoryHierarchy'', levels = [example_level ''L1'' 1 example_fifo],
      total_hits = 0, total_misses = 0, total_promotions = 0, total_latency_ms = 0\<rparr>"

section \<open>Basic facts\<close>

lemma and_then_Inl [simp]: "and_then (Inl e) f = Inl e"
  by (simp add: and_then_def)

lemma and_then_Inr [simp]: "and_then (Inr x) f = f x"
  by (simp add: and_then_def)

lemma and_then_eq_Inr: "and_then m f = Inr y \<longleftrightarrow> (\<exists>x. m = Inr x \<and> f x = Inr y)"
  by (cases m) simp_all

lemma in_keys_iff: "map_of d k \<noteq> None \<longleftrightarrow> k \<in> fst ` set d"
  by (simp add: map_of_eq_None_iff)

lemma length_update_new: "map_of d k = None \<Longrightarrow> length (AList.update k v d) = Suc (length d)"
  by (induction d) (auto split: if_splits)

lemma length_update_old: "map_of d k \<noteq> None \<Longrightarrow> length (AList.update k v d) = length d"
  by (induction d) (auto split: if_splits)

lemma length_delete_in:
  "distinct (map fst d) \<Longrightarrow> k \<in> fst ` set d \<Longrightarrow> Suc (length (AList.delete k d)) = length d"
proof (induction d)
  case Nil
  then show ?case by simp
next
  case (Cons x d)
  show ?case
  proof (cases "fst x = k")
    case True
    with Cons.prems have "k \<notin> fst ` set d" by auto
    then have "AList.delete k d = d" by simp
    with True show ?thesis by simp
  next
    case False
    with Cons show ?thesis by auto
  qed
qed

lemma keys_delete: "fst ` set (AList.delete k d) = fst ` set d - {k}"
  by (auto simp: AList.delete_eq)

lemma length_map_entry [simp]: "length (AList.map_entry k f d) = length d"
  by (induction d) auto

lemma map_fst_map_entry [simp]: "map fst (AList.map_entry k f d) = map fst d"
  by (induction d) auto

section \<open>LFU: the hooks keep the bucket invariant\<close>

lemma map_of_dd_touch:
  "map_of (dd_touch f d) = (case map_of d f of None \<Rightarrow> (map_of d)(f \<mapsto> []) | Some _ \<Rightarrow> map_of d)"
  by (simp add: dd_touch_def update_conv' split: option.splits)

lemma distinct_dd_touch: "distinct (map fst d) \<Longrightarrow> distinct (map fst (dd_touch f d))"
  by (simp add: dd_touch_def distinct_update split: option.splits)

lemma alist_nonemptyI: "map_of d k = Some v \<Longrightarrow> d \<noteq> []"
  by auto

text \<open>The effect of \<open>_increment_frequency\<close> in terms of the two dictionaries.\<close>

lemma increment_frequency_view:
  assumes "map_of (freq_key s) k = Some cf" and "map_of (freq_map s) cf = Some b" and "k \<in> set b"
  shows "\<exists>s'. increment_frequency k s = Inr s' \<and>
           map_of (freq_key s') = (map_of (freq_key s))(k \<mapsto> Suc cf) \<and>
           map_of (freq_map s') =
             ((map_of (freq_map s))(cf := (if remove1 k b = [] then None else Some (remove1 k b))))
               (Suc cf \<mapsto> od_set k (case map_of (freq_map s) (Suc cf) of None \<Rightarrow> [] | Some c \<Rightarrow> c)) \<and>
           min_freq s' = (if remove1 k b = [] \<and> cf = min_freq s then Suc cf else min_freq s) \<and>
           (distinct (map fst (freq_key s)) \<longrightarrow> distinct (map fst (freq_key s'))) \<and>
           (distinct (map fst (freq_map s)) \<longrightarrow> distinct (map fst (freq_map s')))"
  using assms
  by (auto simp: increment_frequency_def Let_def od_del_def dd_read_def map_of_dd_touch
        update_conv' delete_conv' distinct_update distinct_delete distinct_dd_touch fun_eq_iff
        split: option.splits)

lemma lfu_struct_bucket:
  assumes "lfu_struct K s" "k \<in> K"
  shows "\<exists>cf b. map_of (freq_key s) k = Some cf \<and> map_of (freq_map s) cf = Some b \<and> k \<in> set b"
  using assms unfolding lfu_struct_def by (metis domD)

lemma increment_frequency_inv:
  assumes inv: "lfu_inv K s" and k: "k \<in> K"
  shows "\<exists>s' cf. increment_frequency k s = Inr s' \<and> lfu_inv K s' \<and>
           map_of (freq_key s) k = Some cf \<and> map_of (freq_key s') k = Some (Suc cf)"
proof -
  from inv have st: "lfu_struct K s" and mf: "min_freq_ok s" by (simp_all add: lfu_inv_def)
  from lfu_struct_bucket[OF st k] obtain cf b where
    cf: "map_of (freq_key s) k = Some cf" and b: "map_of (freq_map s) cf = Some b" and kb: "k \<in> set b"
    by blast
  from increment_frequency_view[OF cf b kb] obtain s' where
    run: "increment_frequency k s = Inr s'" and
    fk: "map_of (freq_key s') = (map_of (freq_key s))(k \<mapsto> Suc cf)" and
    fm: "map_of (freq_map s') =
             ((map_of (freq_map s))(cf := (if remove1 k b = [] then None else Some (remove1 k b))))
               (Suc cf \<mapsto> od_set k (case map_of (freq_map s) (Suc cf) of None \<Rightarrow> [] | Some c \<Rightarrow> c))" and
    mn: "min_freq s' = (if remove1 k b = [] \<and> cf = min_freq s then Suc cf else min_freq s)" and
    d1: "distinct (map fst (freq_key s)) \<longrightarrow> distinct (map fst (freq_key s'))" and
    d2: "distinct (map fst (freq_map s)) \<longrightarrow> distinct (map fst (freq_map s'))"
    by blast
  let ?M = "map_of (freq_map s)" and ?F = "map_of (freq_key s)"
  from st have bucket: "\<And>f c. ?M f = Some c \<Longrightarrow> c \<noteq> [] \<and> distinct c \<and> 0 < f"
    and link: "\<And>x f. ?F x = Some f \<longleftrightarrow> (\<exists>c. ?M f = Some c \<and> x \<in> set c)"
    and domF: "dom ?F = K"
    and dist: "distinct (map fst (freq_key s))" "distinct (map fst (freq_map s))"
    unfolding lfu_struct_def by blast+
  have db: "distinct b" using bucket[OF b] by simp
  have knot: "k \<notin> set (case ?M (Suc cf) of None \<Rightarrow> [] | Some c \<Rightarrow> c)"
  proof (cases "?M (Suc cf)")
    case None then show ?thesis by simp
  next
    case (Some c)
    show ?thesis
    proof
      assume "k \<in> set (case ?M (Suc cf) of None \<Rightarrow> [] | Some c \<Rightarrow> c)"
      with Some have "k \<in> set c" by simp
      with Some link have "?F k = Some (Suc cf)" by blast
      with cf show False by simp
    qed
  qed
  have rem: "\<And>x. x \<in> set (remove1 k b) \<longleftrightarrow> x \<in> set b \<and> x \<noteq> k"
    using db by auto
  have s1: "dom (map_of (freq_key s')) = K" using fk domF k by auto
  have s2: "\<forall>f c. map_of (freq_map s') f = Some c \<longrightarrow> c \<noteq> [] \<and> distinct c \<and> 0 < f"
    using bucket bucket[OF b] knot db by (auto simp: fm od_set_def split: if_splits option.splits)
  have s3: "\<forall>x f. map_of (freq_key s') x = Some f \<longleftrightarrow>
            (\<exists>c. map_of (freq_map s') f = Some c \<and> x \<in> set c)"
  proof (intro allI)
    fix x f
    show "map_of (freq_key s') x = Some f \<longleftrightarrow> (\<exists>c. map_of (freq_map s') f = Some c \<and> x \<in> set c)"
    proof (cases "x = k")
      case True
      have "(\<exists>c. map_of (freq_map s') f = Some c \<and> k \<in> set c) \<longleftrightarrow> f = Suc cf"
      proof
        assume "\<exists>c. map_of (freq_map s') f = Some c \<and> k \<in> set c"
        then obtain c where c: "map_of (freq_map s') f = Some c" "k \<in> set c" by blast
        show "f = Suc cf"
        proof (rule ccontr)
          assume n: "f \<noteq> Suc cf"
          show False
          proof (cases "f = cf")
            case True
            with c n have "k \<in> set (remove1 k b)" by (auto simp: fm split: if_splits)
            with rem show False by simp
          next
            case False
            with c n have "?M f = Some c" by (simp add: fm)
            with c link have "?F k = Some f" by blast
            with cf False show False by simp
          qed
        qed
      next
        assume "f = Suc cf"
        then show "\<exists>c. map_of (freq_map s') f = Some c \<and> k \<in> set c"
          by (simp add: fm od_set_def)
      qed
      with True show ?thesis by (auto simp: fk)
    next
      case False
      have "(\<exists>c. map_of (freq_map s') f = Some c \<and> x \<in> set c) \<longleftrightarrow> (\<exists>c. ?M f = Some c \<and> x \<in> set c)"
      proof (cases "f = Suc cf")
        case True
        show ?thesis
        proof (cases "?M (Suc cf)")
          case None
          with True False show ?thesis by (simp add: fm od_set_def)
        next
          case (Some c)
          with True False show ?thesis by (auto simp: fm od_set_def)
        qed
      next
        case nS: False
        show ?thesis
        proof (cases "f = cf")
          case True
          have "map_of (freq_map s') cf = (if remove1 k b = [] then None else Some (remove1 k b))"
            by (simp add: fm)
          with True b rem[of x] \<open>x \<noteq> k\<close> show ?thesis
            by (cases "remove1 k b = []") auto
        next
          case False
          with nS show ?thesis by (simp add: fm)
        qed
      qed
      with False link show ?thesis by (simp add: fk)
    qed
  qed
  have st': "lfu_struct K s'"
  proof -
    have "distinct (map fst (freq_key s'))" "distinct (map fst (freq_map s'))"
      using d1 d2 dist by simp_all
    with s1 s2 s3 show ?thesis unfolding lfu_struct_def by (intro conjI)
  qed
  have "map_of (freq_map s') (Suc cf) \<noteq> None" by (simp add: fm)
  then have ne: "freq_map s' \<noteq> []" by auto
  have ne0: "freq_map s \<noteq> []" using b by auto
  from mf ne0 have m_in: "min_freq s \<in> dom ?M" and m_le: "\<And>f. f \<in> dom ?M \<Longrightarrow> min_freq s \<le> f"
    by (auto simp: min_freq_ok_def)
  have cf_dom: "cf \<in> dom ?M" using b by auto
  have domM': "dom (map_of (freq_map s')) =
        insert (Suc cf) (if remove1 k b = [] then dom ?M - {cf} else dom ?M)"
    using b by (auto simp: fm split: if_splits)
  have "min_freq s' \<in> dom (map_of (freq_map s'))"
    using m_in by (auto simp: domM' mn)
  moreover have "\<forall>f \<in> dom (map_of (freq_map s')). min_freq s' \<le> f"
  proof
    fix f assume f: "f \<in> dom (map_of (freq_map s'))"
    show "min_freq s' \<le> f"
    proof (cases "f = Suc cf")
      case True
      with m_le[OF cf_dom] show ?thesis by (simp add: mn)
    next
      case False
      with f have fd: "f \<in> dom ?M" and fcf: "remove1 k b = [] \<longrightarrow> f \<noteq> cf"
        by (auto simp: domM' split: if_splits)
      from m_le[OF fd] fcf show ?thesis by (auto simp: mn)
    qed
  qed
  ultimately have "min_freq_ok s'" using ne by (simp add: min_freq_ok_def)
  with st' run cf fk show ?thesis by (auto simp: lfu_inv_def)
qed

lemma delete_if_present [simp]:
  "(if map_of d k \<noteq> None then AList.delete k d else d) = AList.delete k d"
  by (auto simp: map_of_eq_None_iff)

lemma delete_if_present' [simp]:
  "(if (\<exists>y. map_of d k = Some y) then AList.delete k d else d) = AList.delete k d"
  using delete_if_present[of d k] by (simp del: delete_if_present)

lemma lfu_evict_view:
  assumes "min_freq s = m" and "m \<noteq> 0" and "map_of (freq_map s) m = Some (x # rest)"
  shows "\<exists>s'. lfu_evict s p =
              Inr (count_eviction (p\<lparr>cache := AList.delete x (cache p), variant := LFU s'\<rparr>)) \<and>
           map_of (freq_key s') = (map_of (freq_key s))(x := None) \<and>
           map_of (freq_map s') =
             (map_of (freq_map s))(m := (if rest = [] then None else Some rest)) \<and>
           (distinct (map fst (freq_key s)) \<longrightarrow> distinct (map fst (freq_key s'))) \<and>
           (distinct (map fst (freq_map s)) \<longrightarrow> distinct (map fst (freq_map s')))"
proof -
  have r: "dd_read m (dd_touch m (freq_map s)) = x # rest"
    using assms by (simp add: dd_read_def map_of_dd_touch)
  define fm1 where "fm1 = AList.update m rest (dd_touch m (freq_map s))"
  define s' where "s' = s\<lparr>freq_map := (if rest = [] then AList.delete m fm1 else fm1),
                           freq_key := AList.delete x (freq_key s)\<rparr>"
  have "lfu_evict s p =
          Inr (count_eviction (p\<lparr>cache := AList.delete x (cache p), variant := LFU s'\<rparr>))"
    using assms r by (simp add: lfu_evict_def Let_def s'_def fm1_def)
  moreover have "map_of (freq_key s') = (map_of (freq_key s))(x := None)"
    by (simp add: s'_def delete_conv')
  moreover have "map_of (freq_map s') =
             (map_of (freq_map s))(m := (if rest = [] then None else Some rest))"
    using assms(3)
    by (auto simp: s'_def fm1_def delete_conv' update_conv' map_of_dd_touch fun_eq_iff)
  moreover have "distinct (map fst (freq_key s)) \<longrightarrow> distinct (map fst (freq_key s'))"
    by (simp add: s'_def distinct_delete)
  moreover have "distinct (map fst (freq_map s)) \<longrightarrow> distinct (map fst (freq_map s'))"
    by (simp add: s'_def fm1_def distinct_delete distinct_update distinct_dd_touch)
  ultimately show ?thesis by blast
qed

lemma lfu_inv_min_bucket:
  assumes "lfu_inv K s" and "K \<noteq> {}"
  shows "min_freq s \<noteq> 0 \<and> (\<exists>x rest. map_of (freq_map s) (min_freq s) = Some (x # rest) \<and> x \<in> K)"
proof -
  from assms(1) have st: "lfu_struct K s" and mf: "min_freq_ok s" by (simp_all add: lfu_inv_def)
  from assms(2) obtain k where "k \<in> K" by blast
  from lfu_struct_bucket[OF st this] obtain cf b where
    "map_of (freq_map s) cf = Some b" by blast
  then have "freq_map s \<noteq> []" by auto
  with mf obtain c where c: "map_of (freq_map s) (min_freq s) = Some c"
    by (auto simp: min_freq_ok_def)
  with st have "c \<noteq> []" "0 < min_freq s" unfolding lfu_struct_def by blast+
  then obtain x rest where xr: "c = x # rest" by (cases c) auto
  with c st have "map_of (freq_key s) x = Some (min_freq s)"
    unfolding lfu_struct_def by auto
  with st have "x \<in> K" unfolding lfu_struct_def by blast
  with c xr \<open>0 < min_freq s\<close> show ?thesis by auto
qed

lemma lfu_evict_struct:
  assumes inv: "lfu_inv K s" and ne: "K \<noteq> {}"
  shows "\<exists>x s'. x \<in> K \<and> peek_lfu s = Some x \<and>
           map_of (freq_key s) x = Some (min_freq s) \<and>
           lfu_evict s p =
              Inr (count_eviction (p\<lparr>cache := AList.delete x (cache p), variant := LFU s'\<rparr>)) \<and>
           lfu_struct (K - {x}) s'"
proof -
  from inv have st: "lfu_struct K s" by (simp add: lfu_inv_def)
  from lfu_inv_min_bucket[OF inv ne] obtain x rest where
    m0: "min_freq s \<noteq> 0" and b: "map_of (freq_map s) (min_freq s) = Some (x # rest)" and x: "x \<in> K"
    by blast
  from lfu_evict_view[OF refl m0 b, of p] obtain s' where
    run: "lfu_evict s p =
              Inr (count_eviction (p\<lparr>cache := AList.delete x (cache p), variant := LFU s'\<rparr>))" and
    fk: "map_of (freq_key s') = (map_of (freq_key s))(x := None)" and
    fm: "map_of (freq_map s') =
             (map_of (freq_map s))(min_freq s := (if rest = [] then None else Some rest))" and
    d1: "distinct (map fst (freq_key s)) \<longrightarrow> distinct (map fst (freq_key s'))" and
    d2: "distinct (map fst (freq_map s)) \<longrightarrow> distinct (map fst (freq_map s'))"
    by blast
  let ?M = "map_of (freq_map s)" and ?F = "map_of (freq_key s)" and ?m = "min_freq s"
  from st have bucket: "\<And>f c. ?M f = Some c \<Longrightarrow> c \<noteq> [] \<and> distinct c \<and> 0 < f"
    and link: "\<And>y f. ?F y = Some f \<longleftrightarrow> (\<exists>c. ?M f = Some c \<and> y \<in> set c)"
    and domF: "dom ?F = K"
    and dist: "distinct (map fst (freq_key s))" "distinct (map fst (freq_map s))"
    unfolding lfu_struct_def by blast+
  have Fx: "?F x = Some ?m" using link b by auto
  have dx: "x \<notin> set rest" "distinct rest" using bucket[OF b] by auto
  have peek: "peek_lfu s = Some x" using m0 b by (simp add: peek_lfu_def dd_read_def)
  have s1: "dom (map_of (freq_key s')) = K - {x}" using fk domF by auto
  have s2: "\<forall>f c. map_of (freq_map s') f = Some c \<longrightarrow> c \<noteq> [] \<and> distinct c \<and> 0 < f"
    using bucket dx bucket[OF b] by (auto simp: fm split: if_splits)
  have s3: "\<forall>y f. map_of (freq_key s') y = Some f \<longleftrightarrow>
            (\<exists>c. map_of (freq_map s') f = Some c \<and> y \<in> set c)"
  proof (intro allI)
    fix y f
    show "map_of (freq_key s') y = Some f \<longleftrightarrow> (\<exists>c. map_of (freq_map s') f = Some c \<and> y \<in> set c)"
    proof (cases "f = ?m")
      case True
      have "map_of (freq_map s') ?m = (if rest = [] then None else Some rest)" by (simp add: fm)
      then have r: "(\<exists>c. map_of (freq_map s') ?m = Some c \<and> y \<in> set c) \<longleftrightarrow> y \<in> set rest"
        by (cases "rest = []") auto
      have "?F y = Some ?m \<longleftrightarrow> y \<in> set (x # rest)" using link[of y ?m] b by auto
      with r True dx show ?thesis by (auto simp: fk)
    next
      case False
      then have "map_of (freq_map s') f = ?M f" by (simp add: fm)
      moreover have "y = x \<Longrightarrow> ?F y \<noteq> Some f" using Fx False by auto
      moreover have "y = x \<Longrightarrow> \<not> (\<exists>c. ?M f = Some c \<and> y \<in> set c)"
        using link[of x f] Fx False by auto
      ultimately show ?thesis using link[of y f] by (cases "y = x") (auto simp: fk)
    qed
  qed
  have "distinct (map fst (freq_key s'))" "distinct (map fst (freq_map s'))"
    using d1 d2 dist by simp_all
  with s1 s2 s3 have "lfu_struct (K - {x}) s'" unfolding lfu_struct_def by (intro conjI)
  with x peek Fx run show ?thesis by blast
qed

lemma lfu_on_insert_view:
  "map_of (freq_key (lfu_on_insert k s)) = (map_of (freq_key s))(k \<mapsto> Suc 0) \<and>
   map_of (freq_map (lfu_on_insert k s)) =
     (map_of (freq_map s))(Suc 0 \<mapsto> od_set k (dd_read (Suc 0) (freq_map s))) \<and>
   min_freq (lfu_on_insert k s) = Suc 0 \<and>
   (distinct (map fst (freq_key s)) \<longrightarrow> distinct (map fst (freq_key (lfu_on_insert k s)))) \<and>
   (distinct (map fst (freq_map s)) \<longrightarrow> distinct (map fst (freq_map (lfu_on_insert k s))))"
  by (auto simp: lfu_on_insert_def Let_def dd_read_def map_of_dd_touch
        update_conv' distinct_update distinct_dd_touch fun_eq_iff
        split: option.splits)

lemma lfu_on_insert_inv:
  assumes st: "lfu_struct K s" and k: "k \<notin> K"
  shows "lfu_inv (insert k K) (lfu_on_insert k s)"
proof -
  let ?s' = "lfu_on_insert k s"
  let ?M = "map_of (freq_map s)" and ?F = "map_of (freq_key s)"
  note v = lfu_on_insert_view[of k s]
  from v have fk: "map_of (freq_key ?s') = ?F(k \<mapsto> Suc 0)"
    and fm: "map_of (freq_map ?s') = ?M(Suc 0 \<mapsto> od_set k (dd_read (Suc 0) (freq_map s)))"
    and mn: "min_freq ?s' = Suc 0" by blast+
  from st have bucket: "\<And>f c. ?M f = Some c \<Longrightarrow> c \<noteq> [] \<and> distinct c \<and> 0 < f"
    and link: "\<And>y f. ?F y = Some f \<longleftrightarrow> (\<exists>c. ?M f = Some c \<and> y \<in> set c)"
    and domF: "dom ?F = K"
    and dist: "distinct (map fst (freq_key s))" "distinct (map fst (freq_map s))"
    unfolding lfu_struct_def by blast+
  have Fk: "?F k = None" using domF k by blast
  have knot: "\<And>f c. ?M f = Some c \<Longrightarrow> k \<notin> set c"
    using link[of k] Fk by auto
  have b1: "od_set k (dd_read (Suc 0) (freq_map s)) = dd_read (Suc 0) (freq_map s) @ [k]"
    using knot[of "Suc 0"] by (auto simp: od_set_def dd_read_def split: option.splits)
  have d1: "distinct (dd_read (Suc 0) (freq_map s))"
    using bucket[of "Suc 0"] by (auto simp: dd_read_def split: option.splits)
  have k1: "k \<notin> set (dd_read (Suc 0) (freq_map s))"
    using knot[of "Suc 0"] by (auto simp: dd_read_def split: option.splits)
  have s1: "dom (map_of (freq_key ?s')) = insert k K" using fk domF by auto
  have s2: "\<forall>f c. map_of (freq_map ?s') f = Some c \<longrightarrow> c \<noteq> [] \<and> distinct c \<and> 0 < f"
    using bucket d1 k1 by (auto simp: fm b1 split: if_splits)
  have s3: "\<forall>y f. map_of (freq_key ?s') y = Some f \<longleftrightarrow>
            (\<exists>c. map_of (freq_map ?s') f = Some c \<and> y \<in> set c)"
  proof (intro allI)
    fix y f
    show "map_of (freq_key ?s') y = Some f \<longleftrightarrow> (\<exists>c. map_of (freq_map ?s') f = Some c \<and> y \<in> set c)"
    proof (cases "f = Suc 0")
      case True
      have "(\<exists>c. map_of (freq_map ?s') (Suc 0) = Some c \<and> y \<in> set c) \<longleftrightarrow>
              y = k \<or> y \<in> set (dd_read (Suc 0) (freq_map s))"
        by (auto simp: fm b1)
      moreover have "y \<in> set (dd_read (Suc 0) (freq_map s)) \<longleftrightarrow> ?F y = Some (Suc 0)"
        using link[of y "Suc 0"] by (auto simp: dd_read_def split: option.splits)
      ultimately show ?thesis using True Fk by (cases "y = k") (auto simp: fk)
    next
      case False
      then have "map_of (freq_map ?s') f = ?M f" by (simp add: fm)
      then show ?thesis using link[of y f] knot[of f] False Fk by (cases "y = k") (auto simp: fk)
    qed
  qed
  have "distinct (map fst (freq_key ?s'))" "distinct (map fst (freq_map ?s'))"
    using v dist by simp_all
  with s1 s2 s3 have st': "lfu_struct (insert k K) ?s'" unfolding lfu_struct_def by (intro conjI)
  have "map_of (freq_map ?s') (Suc 0) \<noteq> None" by (simp add: fm)
  then have ne: "freq_map ?s' \<noteq> []" by auto
  have "Suc 0 \<in> dom (map_of (freq_map ?s'))" by (simp add: fm)
  moreover have "\<forall>f \<in> dom (map_of (freq_map ?s')). Suc 0 \<le> f"
    using s2 by (auto simp: Suc_le_eq)
  ultimately have "min_freq_ok ?s'" using ne mn by (simp add: min_freq_ok_def)
  with st' show ?thesis by (simp add: lfu_inv_def)
qed

lemma min_list_least:
  "xs \<noteq> [] \<Longrightarrow> min_list xs \<in> set xs \<and> (\<forall>x \<in> set xs. min_list xs \<le> (x::nat))"
  by (simp add: min_list_Min)

lemma lfu_on_delete_view:
  assumes "map_of (freq_key s) k = Some f" and "map_of (freq_map s) f = Some b" and "k \<in> set b"
  shows "\<exists>fm'. lfu_on_delete k s =
            s\<lparr>freq_map := fm', freq_key := AList.delete k (freq_key s),
              min_freq := (if remove1 k b = [] \<and> f = min_freq s
                           then (if fm' \<noteq> [] then min_list (map fst fm') else 0)
                           else min_freq s)\<rparr> \<and>
           map_of fm' = (map_of (freq_map s))(f := (if remove1 k b = [] then None else Some (remove1 k b))) \<and>
           (distinct (map fst (freq_map s)) \<longrightarrow> distinct (map fst fm'))"
proof -
  define fm1 where "fm1 = AList.update f (remove1 k b) (freq_map s)"
  define fm' where "fm' = (if remove1 k b = [] then AList.delete f fm1 else fm1)"
  have "lfu_on_delete k s =
            s\<lparr>freq_map := fm', freq_key := AList.delete k (freq_key s),
              min_freq := (if remove1 k b = [] \<and> f = min_freq s
                           then (if fm' \<noteq> [] then min_list (map fst fm') else 0)
                           else min_freq s)\<rparr>"
    using assms by (simp add: lfu_on_delete_def Let_def fm'_def fm1_def)
  moreover have "map_of fm' =
      (map_of (freq_map s))(f := (if remove1 k b = [] then None else Some (remove1 k b)))"
    by (auto simp: fm'_def fm1_def delete_conv' update_conv' fun_eq_iff)
  moreover have "distinct (map fst (freq_map s)) \<longrightarrow> distinct (map fst fm')"
    by (simp add: fm'_def fm1_def distinct_delete distinct_update)
  ultimately show ?thesis by blast
qed

lemma lfu_on_delete_inv:
  assumes inv: "lfu_inv K s" and k: "k \<in> K"
  shows "lfu_inv (K - {k}) (lfu_on_delete k s)"
proof -
  from inv have st: "lfu_struct K s" and mf: "min_freq_ok s" by (simp_all add: lfu_inv_def)
  from lfu_struct_bucket[OF st k] obtain f b where
    cf: "map_of (freq_key s) k = Some f" and b: "map_of (freq_map s) f = Some b" and kb: "k \<in> set b"
    by blast
  let ?s' = "lfu_on_delete k s"
  let ?M = "map_of (freq_map s)" and ?F = "map_of (freq_key s)"
  from lfu_on_delete_view[OF cf b kb] obtain fm' where
    eq: "?s' = s\<lparr>freq_map := fm', freq_key := AList.delete k (freq_key s),
              min_freq := (if remove1 k b = [] \<and> f = min_freq s
                           then (if fm' \<noteq> [] then min_list (map fst fm') else 0)
                           else min_freq s)\<rparr>" and
    fm: "map_of fm' = ?M(f := (if remove1 k b = [] then None else Some (remove1 k b)))" and
    d2: "distinct (map fst (freq_map s)) \<longrightarrow> distinct (map fst fm')"
    by blast
  from st have bucket: "\<And>g c. ?M g = Some c \<Longrightarrow> c \<noteq> [] \<and> distinct c \<and> 0 < g"
    and link: "\<And>y g. ?F y = Some g \<longleftrightarrow> (\<exists>c. ?M g = Some c \<and> y \<in> set c)"
    and domF: "dom ?F = K"
    and dist: "distinct (map fst (freq_key s))" "distinct (map fst (freq_map s))"
    unfolding lfu_struct_def by blast+
  have fk: "map_of (freq_key ?s') = ?F(k := None)" by (simp add: eq delete_conv')
  have fm2: "map_of (freq_map ?s') = ?M(f := (if remove1 k b = [] then None else Some (remove1 k b)))"
    by (simp add: eq fm)
  have db: "distinct b" using bucket[OF b] by simp
  have rem: "\<And>y. y \<in> set (remove1 k b) \<longleftrightarrow> y \<in> set b \<and> y \<noteq> k"
    using db by auto
  have s1: "dom (map_of (freq_key ?s')) = K - {k}" using fk domF by auto
  have s2: "\<forall>g c. map_of (freq_map ?s') g = Some c \<longrightarrow> c \<noteq> [] \<and> distinct c \<and> 0 < g"
    using bucket db bucket[OF b] by (auto simp: fm2 split: if_splits)
  have s3: "\<forall>y g. map_of (freq_key ?s') y = Some g \<longleftrightarrow>
            (\<exists>c. map_of (freq_map ?s') g = Some c \<and> y \<in> set c)"
  proof (intro allI)
    fix y g
    show "map_of (freq_key ?s') y = Some g \<longleftrightarrow> (\<exists>c. map_of (freq_map ?s') g = Some c \<and> y \<in> set c)"
    proof (cases "g = f")
      case True
      have "map_of (freq_map ?s') f = (if remove1 k b = [] then None else Some (remove1 k b))"
        by (simp add: fm2)
      then have r: "(\<exists>c. map_of (freq_map ?s') f = Some c \<and> y \<in> set c) \<longleftrightarrow> y \<in> set (remove1 k b)"
        by (cases "remove1 k b = []") auto
      have "?F y = Some f \<longleftrightarrow> y \<in> set b" using link[of y f] b by auto
      with r True rem[of y] show ?thesis by (auto simp: fk)
    next
      case False
      then have "map_of (freq_map ?s') g = ?M g" by (simp add: fm2)
      moreover have "y = k \<Longrightarrow> \<not> (\<exists>c. ?M g = Some c \<and> y \<in> set c)"
        using link[of k g] cf False by auto
      ultimately show ?thesis using link[of y g] by (cases "y = k") (auto simp: fk)
    qed
  qed
  have "distinct (map fst (freq_key ?s'))" "distinct (map fst (freq_map ?s'))"
    using d2 dist by (simp_all add: eq distinct_delete)
  with s1 s2 s3 have st': "lfu_struct (K - {k}) ?s'" unfolding lfu_struct_def by (intro conjI)
  have ne0: "freq_map s \<noteq> []" using b by auto
  from mf ne0 have m_in: "min_freq s \<in> dom ?M" and m_le: "\<And>g. g \<in> dom ?M \<Longrightarrow> min_freq s \<le> g"
    by (auto simp: min_freq_ok_def)
  have fms: "freq_map ?s' = fm'" by (simp add: eq)
  have domM': "dom (map_of fm') = (if remove1 k b = [] then dom ?M - {f} else dom ?M)"
    using b by (auto simp: fm split: if_splits)
  have "min_freq_ok ?s'"
  proof (cases "remove1 k b = [] \<and> f = min_freq s")
    case True
    then have mn: "min_freq ?s' = (if fm' \<noteq> [] then min_list (map fst fm') else 0)"
      by (simp add: eq)
    show ?thesis
    proof (cases "fm' = []")
      case True
      with mn fms show ?thesis by (simp add: min_freq_ok_def)
    next
      case False
      then have "map fst fm' \<noteq> []" by simp
      from min_list_least[OF this] False mn fms show ?thesis
        by (simp add: min_freq_ok_def dom_map_of_conv_image_fst)
    qed
  next
    case False
    then have mn: "min_freq ?s' = min_freq s" by (auto simp: eq)
    from False m_in have "min_freq s \<in> dom (map_of fm')" by (auto simp: domM')
    moreover from m_le have "\<forall>g \<in> dom (map_of fm'). min_freq s \<le> g"
      by (auto simp: domM' split: if_splits)
    moreover from calculation have "fm' \<noteq> []" by auto
    ultimately show ?thesis using mn fms by (simp add: min_freq_ok_def)
  qed
  with st' show ?thesis by (simp add: lfu_inv_def)
qed

lemma lfu_on_clear_inv: "lfu_inv {} (lfu_on_clear s)"
  by (simp add: lfu_inv_def lfu_struct_def min_freq_ok_def lfu_on_clear_def)

lemma in_dd_read: "k \<in> set (dd_read f d) \<longleftrightarrow> (\<exists>c. map_of d f = Some c \<and> k \<in> set c)"
  by (cases "map_of d f") (simp_all add: dd_read_def)

lemma increment_frequency_bucket:
  assumes inv: "lfu_inv K s" and k: "k \<in> K" and run: "increment_frequency k s = Inr s'"
    and cf: "map_of (freq_key s) k = Some cf"
  shows "dd_read (Suc cf) (freq_map s') = dd_read (Suc cf) (freq_map s) @ [k]"
proof -
  from inv have st: "lfu_struct K s" by (simp add: lfu_inv_def)
  from lfu_struct_bucket[OF st k] cf obtain b where
    b: "map_of (freq_map s) cf = Some b" and kb: "k \<in> set b" by auto
  from increment_frequency_view[OF cf b kb] run have
    fm: "map_of (freq_map s') (Suc cf) =
           Some (od_set k (case map_of (freq_map s) (Suc cf) of None \<Rightarrow> [] | Some c \<Rightarrow> c))"
    by auto
  have "k \<notin> set (dd_read (Suc cf) (freq_map s))"
  proof
    assume "k \<in> set (dd_read (Suc cf) (freq_map s))"
    then obtain c where "map_of (freq_map s) (Suc cf) = Some c" "k \<in> set c"
      by (auto simp: in_dd_read)
    with st have "map_of (freq_key s) k = Some (Suc cf)" unfolding lfu_struct_def by blast
    with cf show False by simp
  qed
  then show ?thesis using fm by (simp add: dd_read_def od_set_def)
qed

lemma lfu_on_insert_bucket:
  assumes st: "lfu_struct K s" and k: "k \<notin> K"
  shows "dd_read (Suc 0) (freq_map (lfu_on_insert k s)) = dd_read (Suc 0) (freq_map s) @ [k] \<and>
         map_of (freq_key (lfu_on_insert k s)) k = Some (Suc 0) \<and>
         min_freq (lfu_on_insert k s) = Suc 0"
proof -
  have "k \<notin> set (dd_read (Suc 0) (freq_map s))"
  proof
    assume "k \<in> set (dd_read (Suc 0) (freq_map s))"
    then obtain c where "map_of (freq_map s) (Suc 0) = Some c" "k \<in> set c"
      by (auto simp: in_dd_read)
    with st have "map_of (freq_key s) k = Some (Suc 0)" unfolding lfu_struct_def by blast
    with st k show False unfolding lfu_struct_def by blast
  qed
  then show ?thesis using lfu_on_insert_view[of k s] by (simp add: dd_read_def od_set_def)
qed

lemma lfu_min_freq_le:
  assumes "lfu_inv K s" and "map_of (freq_key s) k = Some f"
  shows "min_freq s \<le> f"
proof -
  from assms have "\<exists>b. map_of (freq_map s) f = Some b"
    unfolding lfu_inv_def lfu_struct_def by blast
  then obtain b where b: "map_of (freq_map s) f = Some b" by blast
  then have "freq_map s \<noteq> []" by auto
  with assms(1) b show ?thesis unfolding lfu_inv_def min_freq_ok_def by auto
qed

lemma dd_read_map_of: "dd_read g d = (case map_of d g of None \<Rightarrow> [] | Some b \<Rightarrow> b)"
  by (simp add: dd_read_def)

lemma increment_frequency_buckets:
  assumes inv: "lfu_inv K s" and k: "k \<in> K" and run: "increment_frequency k s = Inr s'"
    and cf: "map_of (freq_key s) k = Some cf"
  shows "(\<forall>g. dd_read g (freq_map s') =
            (if g = Suc cf then dd_read g (freq_map s) @ [k]
             else if g = cf then remove1 k (dd_read g (freq_map s))
             else dd_read g (freq_map s))) \<and>
         map_of (freq_key s') = (map_of (freq_key s))(k \<mapsto> Suc cf) \<and>
         min_freq s' =
           (if remove1 k (dd_read cf (freq_map s)) = [] \<and> cf = min_freq s then Suc cf
            else min_freq s)"
proof -
  from inv have st: "lfu_struct K s" by (simp add: lfu_inv_def)
  from lfu_struct_bucket[OF st k] cf obtain b where
    b: "map_of (freq_map s) cf = Some b" and kb: "k \<in> set b" by auto
  from increment_frequency_view[OF cf b kb] run have
    fm: "map_of (freq_map s') =
           ((map_of (freq_map s))(cf := (if remove1 k b = [] then None else Some (remove1 k b))))
             (Suc cf \<mapsto> od_set k (case map_of (freq_map s) (Suc cf) of None \<Rightarrow> [] | Some c \<Rightarrow> c))"
    and fk: "map_of (freq_key s') = (map_of (freq_key s))(k \<mapsto> Suc cf)"
    and mn: "min_freq s' = (if remove1 k b = [] \<and> cf = min_freq s then Suc cf else min_freq s)"
    by auto
  have kn: "k \<notin> set (dd_read (Suc cf) (freq_map s))"
  proof
    assume "k \<in> set (dd_read (Suc cf) (freq_map s))"
    then obtain c where "map_of (freq_map s) (Suc cf) = Some c" "k \<in> set c"
      by (auto simp: in_dd_read)
    with st have "map_of (freq_key s) k = Some (Suc cf)" unfolding lfu_struct_def by blast
    with cf show False by simp
  qed
  have rb: "dd_read cf (freq_map s) = b" using b by (simp add: dd_read_def)
  have "\<forall>g. dd_read g (freq_map s') =
            (if g = Suc cf then dd_read g (freq_map s) @ [k]
             else if g = cf then remove1 k (dd_read g (freq_map s))
             else dd_read g (freq_map s))"
  proof
    fix g
    show "dd_read g (freq_map s') =
            (if g = Suc cf then dd_read g (freq_map s) @ [k]
             else if g = cf then remove1 k (dd_read g (freq_map s))
             else dd_read g (freq_map s))"
    proof (cases "g = Suc cf")
      case True
      have "dd_read (Suc cf) (freq_map s') = od_set k (dd_read (Suc cf) (freq_map s))"
        by (simp add: dd_read_map_of fm)
      with kn True show ?thesis by (simp add: od_set_def)
    next
      case False
      show ?thesis
      proof (cases "g = cf")
        case True
        have "dd_read cf (freq_map s') = remove1 k b"
          by (simp add: dd_read_map_of fm)
        with True rb show ?thesis by simp
      next
        case nc: False
        with False have "map_of (freq_map s') g = map_of (freq_map s) g" by (simp add: fm)
        with False nc show ?thesis by (simp add: dd_read_map_of)
      qed
    qed
  qed
  with fk mn rb show ?thesis by simp
qed

lemma lfu_on_insert_buckets:
  assumes st: "lfu_struct K s" and k: "k \<notin> K"
  shows "(\<forall>g. dd_read g (freq_map (lfu_on_insert k s)) =
            (if g = Suc 0 then dd_read g (freq_map s) @ [k] else dd_read g (freq_map s))) \<and>
         map_of (freq_key (lfu_on_insert k s)) = (map_of (freq_key s))(k \<mapsto> Suc 0) \<and>
         min_freq (lfu_on_insert k s) = Suc 0"
proof -
  note v = lfu_on_insert_view[of k s]
  from lfu_on_insert_bucket[OF st k]
  have b1: "dd_read (Suc 0) (freq_map (lfu_on_insert k s)) = dd_read (Suc 0) (freq_map s) @ [k]"
    by simp
  have "\<forall>g. dd_read g (freq_map (lfu_on_insert k s)) =
            (if g = Suc 0 then dd_read g (freq_map s) @ [k] else dd_read g (freq_map s))"
  proof
    fix g
    show "dd_read g (freq_map (lfu_on_insert k s)) =
            (if g = Suc 0 then dd_read g (freq_map s) @ [k] else dd_read g (freq_map s))"
    proof (cases "g = Suc 0")
      case True
      with b1 show ?thesis by simp
    next
      case False
      with v have "map_of (freq_map (lfu_on_insert k s)) g = map_of (freq_map s) g" by simp
      with False show ?thesis by (simp add: dd_read_map_of)
    qed
  qed
  with v show ?thesis by simp
qed

lemma lfu_evict_buckets:
  assumes inv: "lfu_inv K s" and ne: "K \<noteq> {}"
  shows "\<exists>x rest s1. min_freq s \<noteq> 0 \<and> dd_read (min_freq s) (freq_map s) = x # rest \<and> x \<in> K \<and>
           lfu_evict s p =
             Inr (count_eviction (p\<lparr>cache := AList.delete x (cache p), variant := LFU s1\<rparr>)) \<and>
           lfu_struct (K - {x}) s1 \<and>
           (\<forall>g. dd_read g (freq_map s1) =
              (if g = min_freq s then rest else dd_read g (freq_map s))) \<and>
           map_of (freq_key s1) = (map_of (freq_key s))(x := None)"
proof -
  from lfu_inv_min_bucket[OF inv ne] obtain x rest where
    m0: "min_freq s \<noteq> 0" and b: "map_of (freq_map s) (min_freq s) = Some (x # rest)" and x: "x \<in> K"
    by blast
  from lfu_evict_view[OF refl m0 b, of p] obtain s1 where
    run: "lfu_evict s p =
            Inr (count_eviction (p\<lparr>cache := AList.delete x (cache p), variant := LFU s1\<rparr>))" and
    fk: "map_of (freq_key s1) = (map_of (freq_key s))(x := None)" and
    fm: "map_of (freq_map s1) =
           (map_of (freq_map s))(min_freq s := (if rest = [] then None else Some rest))"
    by blast
  from lfu_evict_struct[OF inv ne, of p] obtain x' s' where
    pk: "peek_lfu s = Some x'" and
    run': "lfu_evict s p =
            Inr (count_eviction (p\<lparr>cache := AList.delete x' (cache p), variant := LFU s'\<rparr>))" and
    st': "lfu_struct (K - {x'}) s'" by blast
  have "peek_lfu s = Some x" using m0 b by (simp add: peek_lfu_def dd_read_def)
  with pk have xx: "x' = x" by simp
  from run run' have "variant (count_eviction (p\<lparr>cache := AList.delete x (cache p), variant := LFU s1\<rparr>))
      = variant (count_eviction (p\<lparr>cache := AList.delete x' (cache p), variant := LFU s'\<rparr>))"
    by simp
  then have "s' = s1" by (simp add: count_eviction_def)
  with st' xx have st1: "lfu_struct (K - {x}) s1" by simp
  have rd: "dd_read (min_freq s) (freq_map s) = x # rest" using b by (simp add: dd_read_def)
  have "\<forall>g. dd_read g (freq_map s1) = (if g = min_freq s then rest else dd_read g (freq_map s))"
    by (simp add: dd_read_map_of fm)
  with m0 rd x run st1 fk show ?thesis by blast
qed

lemma lfu_on_delete_buckets:
  assumes st: "lfu_struct K s" and k: "k \<in> K" and cf: "map_of (freq_key s) k = Some f"
  shows "(\<forall>g. dd_read g (freq_map (lfu_on_delete k s)) =
            (if g = f then remove1 k (dd_read g (freq_map s)) else dd_read g (freq_map s))) \<and>
         map_of (freq_key (lfu_on_delete k s)) = (map_of (freq_key s))(k := None)"
proof -
  from lfu_struct_bucket[OF st k] cf obtain b where
    b: "map_of (freq_map s) f = Some b" and kb: "k \<in> set b" by auto
  from lfu_on_delete_view[OF cf b kb] obtain fm' where
    eq: "lfu_on_delete k s =
            s\<lparr>freq_map := fm', freq_key := AList.delete k (freq_key s),
              min_freq := (if remove1 k b = [] \<and> f = min_freq s
                           then (if fm' \<noteq> [] then min_list (map fst fm') else 0)
                           else min_freq s)\<rparr>" and
    fm: "map_of fm' = (map_of (freq_map s))(f := (if remove1 k b = [] then None else Some (remove1 k b)))"
    by blast
  have "\<forall>g. dd_read g (freq_map (lfu_on_delete k s)) =
            (if g = f then remove1 k (dd_read g (freq_map s)) else dd_read g (freq_map s))"
    using b by (simp add: eq dd_read_map_of fm)
  moreover have "map_of (freq_key (lfu_on_delete k s)) = (map_of (freq_key s))(k := None)"
    by (simp add: eq delete_conv')
  ultimately show ?thesis by simp
qed

section \<open>FIFO: the hooks keep the queue invariant\<close>

lemma fifo_evict_ok:
  assumes "fifo_inv K s" and "K \<noteq> {}"
  shows "\<exists>x s'. x \<in> K \<and> peek_next_eviction s = Some x \<and>
           fifo_evict s p =
             Inr (count_eviction (p\<lparr>cache := AList.delete x (cache p), variant := FIFO s'\<rparr>)) \<and>
           fifo_inv (K - {x}) s'"
proof -
  from assms obtain x rest where q: "insertion_queue s = x # rest"
    by (cases "insertion_queue s") (auto simp: fifo_inv_def)
  with assms(1) have "fifo_inv (K - {x}) (s\<lparr>insertion_queue := rest\<rparr>)" "x \<in> K"
    by (auto simp: fifo_inv_def)
  with q show ?thesis by (auto simp: fifo_evict_def peek_next_eviction_def)
qed

lemma fifo_on_insert_inv: "fifo_inv K s \<Longrightarrow> k \<notin> K \<Longrightarrow> fifo_inv (insert k K) (fifo_on_insert k s)"
  by (auto simp: fifo_inv_def fifo_on_insert_def)

lemma fifo_on_delete_inv: "fifo_inv K s \<Longrightarrow> fifo_inv (K - {k}) (fifo_on_delete k s)"
  by (auto simp: fifo_inv_def fifo_on_delete_def)

lemma fifo_on_clear_inv: "fifo_inv {} (fifo_on_clear s)"
  by (simp add: fifo_inv_def fifo_on_clear_def)

section \<open>LRU: the hooks keep the linked list\<close>

lemma linked_append:
  "linked h (xs @ y # ys) \<longleftrightarrow> linked h (xs @ [y]) \<and> linked h (y # ys)"
  by (induction h xs rule: linked.induct) auto

lemma linked_frame:
  assumes "\<forall>a \<in> set (butlast xs). nxt (h' a) = nxt (h a)"
    and "\<forall>a \<in> set (tl xs). prev (h' a) = prev (h a)"
  shows "linked h' xs = linked h xs"
  using assms by (induction h xs rule: linked.induct) auto

lemma linked_last_prev:
  "linked h (xs @ [y, z]) \<Longrightarrow> prev (h z) = Some y \<and> nxt (h y) = Some z"
  by (induction h xs rule: linked.induct) auto

lemma remove_node_list:
  assumes l: "lru_list s (xs @ a # ys)"
  shows "\<exists>s'. remove_node a s = Inr s' \<and> lru_list s' (xs @ ys) \<and>
           node_map s' = node_map s \<and> head s' = head s \<and> tail s' = tail s \<and> fresh s' = fresh s \<and>
           (\<forall>b. nkey (heap s' b) = nkey (heap s b))"
proof -
  let ?h = "heap s"
  define pre where "pre = butlast (head s # xs)"
  define p where "p = last (head s # xs)"
  define n where "n = hd (ys @ [tail s])"
  define post where "post = tl (ys @ [tail s])"
  have pre: "head s # xs = pre @ [p]" by (simp add: pre_def p_def)
  have post: "ys @ [tail s] = n # post" by (simp add: n_def post_def)
  have L: "head s # (xs @ a # ys) @ [tail s] = pre @ p # a # n # post"
    using pre post by (metis append.assoc append_Cons append_Nil)
  have L': "head s # (xs @ ys) @ [tail s] = pre @ p # n # post"
    using pre post by (metis append.assoc append_Cons append_Nil)
  from l have lk: "linked ?h (pre @ p # a # n # post)" and d: "distinct (pre @ p # a # n # post)"
    unfolding lru_list_def L by simp_all
  from lk have l1: "linked ?h (pre @ [p])" and l2: "linked ?h (p # a # n # post)"
    using linked_append[of ?h pre p "a # n # post"] by simp_all
  from l2 have pa: "nxt (?h p) = Some a" "prev (?h a) = Some p" "nxt (?h a) = Some n"
    "prev (?h n) = Some a" and l3: "linked ?h (n # post)" by simp_all
  from d have ne: "a \<noteq> p" "a \<noteq> n" "p \<noteq> n" "a \<notin> set pre" "a \<notin> set post" "p \<notin> set pre"
    "p \<notin> set post" "n \<notin> set pre" "n \<notin> set post" by auto
  define h4 where "h4 = (?h)(p := (?h p)\<lparr>nxt := Some n\<rparr>, n := (?h n)\<lparr>prev := Some p\<rparr>,
                              a := (?h a)\<lparr>prev := None, nxt := None\<rparr>)"
  have run: "remove_node a s = Inr (s\<lparr>heap := h4\<rparr>)"
    using pa ne by (simp add: remove_node_def Let_def h4_def fun_upd_twist)
  have k4: "\<And>b. nkey (h4 b) = nkey (?h b)" by (simp add: h4_def)
  have n_pre: "\<forall>b \<in> set pre. nxt (h4 b) = nxt (?h b)" using ne by (auto simp: h4_def)
  have p_pre: "\<forall>b \<in> set (pre @ [p]). prev (h4 b) = prev (?h b)" using ne by (auto simp: h4_def)
  have n_post: "\<forall>b \<in> set (n # post). nxt (h4 b) = nxt (?h b)" using ne by (auto simp: h4_def)
  have p_post: "\<forall>b \<in> set post. prev (h4 b) = prev (?h b)" using ne by (auto simp: h4_def)
  have "linked h4 (pre @ [p]) = linked ?h (pre @ [p])"
  proof (rule linked_frame)
    show "\<forall>b\<in>set (butlast (pre @ [p])). nxt (h4 b) = nxt (?h b)" using n_pre by simp
    show "\<forall>b\<in>set (tl (pre @ [p])). prev (h4 b) = prev (?h b)"
      using p_pre by (cases pre) auto
  qed
  with l1 have a1: "linked h4 (pre @ [p])" by simp
  have "linked h4 (n # post) = linked ?h (n # post)"
  proof (rule linked_frame)
    show "\<forall>b\<in>set (butlast (n # post)). nxt (h4 b) = nxt (?h b)"
      using n_post by (auto dest: in_set_butlastD)
    show "\<forall>b\<in>set (tl (n # post)). prev (h4 b) = prev (?h b)" using p_post by simp
  qed
  with l3 have a2: "linked h4 (n # post)" by simp
  have a3: "nxt (h4 p) = Some n" "prev (h4 n) = Some p" using ne by (simp_all add: h4_def)
  have "linked h4 (p # n # post)" using a2 a3 by simp
  with a1 have lk': "linked h4 (pre @ p # n # post)" using linked_append[of h4 pre p "n # post"] by simp
  have lk'': "linked h4 (head s # (xs @ ys) @ [tail s])" using lk' by (simp only: L')
  have d': "distinct (head s # (xs @ ys) @ [tail s])" using l by (auto simp: lru_list_def)
  have f': "\<forall>b \<in> set (head s # (xs @ ys) @ [tail s]). b < fresh s"
    using l by (auto simp: lru_list_def)
  have k': "\<forall>b \<in> set (xs @ ys). nkey (h4 b) \<noteq> None" using l k4 by (auto simp: lru_list_def)
  have "lru_list (s\<lparr>heap := h4\<rparr>) (xs @ ys)"
    unfolding lru_list_def using lk'' d' f' k' by simp
  with run k4 show ?thesis by auto
qed

lemma add_to_front_list:
  assumes l: "lru_list s as" and fr: "a \<notin> set (head s # as @ [tail s])" and lt: "a < fresh s"
    and ky: "nkey (heap s a) \<noteq> None"
  shows "\<exists>s'. add_to_front a s = Inr s' \<and> lru_list s' (a # as) \<and>
           node_map s' = node_map s \<and> head s' = head s \<and> tail s' = tail s \<and> fresh s' = fresh s \<and>
           (\<forall>b. nkey (heap s' b) = nkey (heap s b))"
proof -
  let ?h = "heap s" and ?hd = "head s"
  define f where "f = hd (as @ [tail s])"
  define rest where "rest = tl (as @ [tail s])"
  have L: "as @ [tail s] = f # rest" by (simp add: f_def rest_def)
  from l have lk: "linked ?h (?hd # f # rest)" and d: "distinct (?hd # f # rest)"
    unfolding lru_list_def L by simp_all
  from lk have hf: "nxt (?h ?hd) = Some f" and l3: "linked ?h (f # rest)" by simp_all
  from fr d have ne: "a \<noteq> ?hd" "a \<noteq> f" "a \<notin> set rest" "?hd \<noteq> f" "?hd \<notin> set rest" "f \<notin> set rest"
    unfolding L by auto
  define h4 where "h4 = (?h)(a := (?h a)\<lparr>nxt := Some f, prev := Some ?hd\<rparr>,
                              f := (?h f)\<lparr>prev := Some a\<rparr>, ?hd := (?h ?hd)\<lparr>nxt := Some a\<rparr>)"
  have run: "add_to_front a s = Inr (s\<lparr>heap := h4\<rparr>)"
    using hf ne by (simp add: add_to_front_def Let_def h4_def fun_upd_twist)
  have k4: "\<And>b. nkey (h4 b) = nkey (?h b)" by (simp add: h4_def)
  have n_post: "\<forall>b \<in> set (f # rest). nxt (h4 b) = nxt (?h b)" using ne by (auto simp: h4_def)
  have p_post: "\<forall>b \<in> set rest. prev (h4 b) = prev (?h b)" using ne by (auto simp: h4_def)
  have "linked h4 (f # rest) = linked ?h (f # rest)"
  proof (rule linked_frame)
    show "\<forall>b\<in>set (butlast (f # rest)). nxt (h4 b) = nxt (?h b)"
      using n_post by (auto dest: in_set_butlastD)
    show "\<forall>b\<in>set (tl (f # rest)). prev (h4 b) = prev (?h b)" using p_post by simp
  qed
  with l3 have a2: "linked h4 (f # rest)" by simp
  have a3: "nxt (h4 ?hd) = Some a" "prev (h4 a) = Some ?hd" "nxt (h4 a) = Some f" "prev (h4 f) = Some a"
    using ne by (simp_all add: h4_def)
  have "linked h4 (?hd # a # f # rest)" using a2 a3 by simp
  then have lk': "linked h4 (?hd # (a # as) @ [tail s])" using L by simp
  have d': "distinct (?hd # (a # as) @ [tail s])" using l fr by (auto simp: lru_list_def)
  have f': "\<forall>b \<in> set (?hd # (a # as) @ [tail s]). b < fresh s"
    using l lt by (auto simp: lru_list_def)
  have k': "\<forall>b \<in> set (a # as). nkey (h4 b) \<noteq> None" using l k4 ky by (auto simp: lru_list_def)
  have "lru_list (s\<lparr>heap := h4\<rparr>) (a # as)"
    unfolding lru_list_def using lk' d' f' k' by simp
  with run k4 show ?thesis by auto
qed

lemma move_to_front_list:
  assumes l: "lru_list s (xs @ a # ys)"
  shows "\<exists>s'. move_to_front a s = Inr s' \<and> lru_list s' (a # xs @ ys) \<and>
           node_map s' = node_map s \<and> head s' = head s \<and> tail s' = tail s \<and> fresh s' = fresh s \<and>
           (\<forall>b. nkey (heap s' b) = nkey (heap s b))"
proof -
  from remove_node_list[OF l] obtain s1 where
    r: "remove_node a s = Inr s1" and l1: "lru_list s1 (xs @ ys)" and
    same: "node_map s1 = node_map s" "head s1 = head s" "tail s1 = tail s" "fresh s1 = fresh s" and
    k1: "\<forall>b. nkey (heap s1 b) = nkey (heap s b)" by blast
  from l have "a \<notin> set (head s # (xs @ ys) @ [tail s])" "a < fresh s" "nkey (heap s a) \<noteq> None"
    by (auto simp: lru_list_def)
  with same k1 have "a \<notin> set (head s1 # (xs @ ys) @ [tail s1])" "a < fresh s1"
    "nkey (heap s1 a) \<noteq> None" by simp_all
  from add_to_front_list[OF l1 this] obtain s2 where
    "add_to_front a s1 = Inr s2" "lru_list s2 (a # xs @ ys)"
    "node_map s2 = node_map s1" "head s2 = head s1" "tail s2 = tail s1" "fresh s2 = fresh s1"
    "\<forall>b. nkey (heap s2 b) = nkey (heap s1 b)" by blast
  with r same k1 show ?thesis by (simp add: move_to_front_def)
qed

lemma peek_mru_list: "lru_list s (a # as) \<Longrightarrow> peek_mru s = Inr (nkey (heap s a))"
  by (auto simp: lru_list_def peek_mru_def)

lemma peek_mru_empty: "lru_list s [] \<Longrightarrow> peek_mru s = Inr None"
  by (auto simp: lru_list_def peek_mru_def)

lemma lru_list_last:
  assumes "lru_list s (as @ [a])"
  shows "prev (heap s (tail s)) = Some a \<and> a \<noteq> head s"
proof -
  from assms have "linked (heap s) ((head s # as) @ [a, tail s])" "a \<noteq> head s"
    by (auto simp: lru_list_def)
  with linked_last_prev[of "heap s" "head s # as" a "tail s"] show ?thesis by simp
qed

lemma peek_lru_list: "lru_list s (as @ [a]) \<Longrightarrow> peek_lru s = Inr (nkey (heap s a))"
  using lru_list_last[of s as a] by (simp add: peek_lru_def)

lemma peek_lru_empty: "lru_list s [] \<Longrightarrow> peek_lru s = Inr None"
  by (auto simp: lru_list_def peek_lru_def)

lemma lru_on_access_inv:
  assumes inv: "lru_inv K s" and k: "k \<in> K"
  shows "\<exists>s'. lru_on_access k s = Inr s' \<and> lru_inv K s' \<and> peek_mru s' = Inr (Some k)"
proof -
  from inv obtain as where l: "lru_list s as" and m: "lru_map K s as" by (auto simp: lru_inv_def)
  from m k obtain a where a: "map_of (node_map s) k = Some a" by (auto simp: lru_map_def)
  with m have ain: "a \<in> set as" and ka: "nkey (heap s a) = Some k" by (auto simp: lru_map_def)
  from ain obtain xs ys where as: "as = xs @ a # ys" by (auto simp: in_set_conv_decomp)
  from move_to_front_list[OF l[unfolded as]] obtain s' where
    r: "move_to_front a s = Inr s'" and l': "lru_list s' (a # xs @ ys)" and
    same: "node_map s' = node_map s" and k': "\<forall>b. nkey (heap s' b) = nkey (heap s b)" by blast
  have "lru_map K s' (a # xs @ ys)" using m same k' unfolding lru_map_def as by auto
  with l' have "lru_inv K s'" by (auto simp: lru_inv_def)
  moreover have "peek_mru s' = Inr (Some k)" using peek_mru_list[OF l'] k' ka by simp
  ultimately show ?thesis using r a by (simp add: lru_on_access_def)
qed

lemma lru_list_alloc:
  assumes l: "lru_list s as"
  shows "lru_list (s\<lparr>heap := (heap s)(fresh s := n), fresh := Suc (fresh s)\<rparr>) as"
proof -
  let ?h' = "(heap s)(fresh s := n)"
  from l have nf: "fresh s \<notin> set (head s # as @ [tail s])" by (auto simp: lru_list_def)
  have "linked ?h' (head s # as @ [tail s]) = linked (heap s) (head s # as @ [tail s])"
  proof (rule linked_frame)
    show "\<forall>a\<in>set (butlast (head s # as @ [tail s])). nxt (?h' a) = nxt (heap s a)"
      using nf by (auto dest: in_set_butlastD)
    show "\<forall>a\<in>set (tl (head s # as @ [tail s])). prev (?h' a) = prev (heap s a)"
      using nf by auto
  qed
  with l nf show ?thesis by (auto simp: lru_list_def less_Suc_eq)
qed

lemma lru_on_insert_inv:
  assumes inv: "lru_inv K s" and k: "k \<notin> K"
  shows "\<exists>s'. lru_on_insert k s = Inr s' \<and> lru_inv (insert k K) s' \<and> peek_mru s' = Inr (Some k)"
proof -
  from inv obtain as where l: "lru_list s as" and m: "lru_map K s as" by (auto simp: lru_inv_def)
  let ?new = "fresh s"
  let ?s1 = "s\<lparr>heap := (heap s)(?new := new_node (Some k)), fresh := Suc ?new\<rparr>"
  have l1: "lru_list ?s1 as" by (rule lru_list_alloc[OF l])
  from l have nf: "?new \<notin> set (head s # as @ [tail s])" by (auto simp: lru_list_def)
  then have c: "?new \<notin> set (head ?s1 # as @ [tail ?s1])" "?new < fresh ?s1"
    "nkey (heap ?s1 ?new) \<noteq> None" by (simp_all add: new_node_def)
  from add_to_front_list[OF l1 c] obtain s2 where
    r: "add_to_front ?new ?s1 = Inr s2" and l2: "lru_list s2 (?new # as)" and
    same: "node_map s2 = node_map s" and k2: "\<forall>b. nkey (heap s2 b) = nkey (heap ?s1 b)" by auto
  let ?s' = "s2\<lparr>node_map := AList.update k ?new (node_map s2)\<rparr>"
  have run: "lru_on_insert k s = Inr ?s'" using r by (simp add: lru_on_insert_def Let_def)
  have l': "lru_list ?s' (?new # as)" using l2 by (simp add: lru_list_def)
  have kn: "nkey (heap s2 ?new) = Some k" using k2 by (simp add: new_node_def)
  have ko: "\<And>b. b \<in> set as \<Longrightarrow> nkey (heap s2 b) = nkey (heap s b)" using k2 nf by auto
  from m have dn: "distinct (map fst (node_map s))" and dm: "dom (map_of (node_map s)) = K"
    and lk: "\<And>k' a. map_of (node_map s) k' = Some a \<longleftrightarrow> a \<in> set as \<and> nkey (heap s a) = Some k'"
    unfolding lru_map_def by blast+
  have nk: "map_of (node_map s) k = None" using dm k by blast
  have m3: "\<forall>k' a. map_of (node_map ?s') k' = Some a \<longleftrightarrow>
              a \<in> set (?new # as) \<and> nkey (heap ?s' a) = Some k'"
  proof (intro allI)
    fix k' a
    show "map_of (node_map ?s') k' = Some a \<longleftrightarrow> a \<in> set (?new # as) \<and> nkey (heap ?s' a) = Some k'"
    proof (cases "a = ?new")
      case True
      have "map_of (node_map s) k' \<noteq> Some ?new" using lk[of k' ?new] nf by auto
      with True kn show ?thesis by (auto simp: same update_conv')
    next
      case False
      have "k' = k \<Longrightarrow> \<not> (a \<in> set as \<and> nkey (heap s a) = Some k')" using lk[of k a] nk by simp
      with False ko[of a] lk[of k' a] show ?thesis by (auto simp: same update_conv')
    qed
  qed
  have "distinct (map fst (node_map ?s'))" using dn by (simp add: same distinct_update)
  moreover have "dom (map_of (node_map ?s')) = insert k K" using dm by (simp add: same update_conv')
  ultimately have "lru_map (insert k K) ?s' (?new # as)" using m3 unfolding lru_map_def by (intro conjI)
  with l' have "lru_inv (insert k K) ?s'" by (auto simp: lru_inv_def)
  moreover have "peek_mru ?s' = Inr (Some k)" using peek_mru_list[OF l'] kn by simp
  ultimately show ?thesis using run by simp
qed

lemma lru_map_drop:
  assumes m: "lru_map K s as" and a: "map_of (node_map s) k = Some a"
    and l': "lru_list s1 bs" and sb: "set bs = set as - {a}"
    and same: "node_map s1 = node_map s" and k1: "\<forall>b. nkey (heap s1 b) = nkey (heap s b)"
  shows "lru_inv (K - {k}) (s1\<lparr>node_map := AList.delete k (node_map s1)\<rparr>)"
proof -
  let ?s' = "s1\<lparr>node_map := AList.delete k (node_map s1)\<rparr>"
  from m have dn: "distinct (map fst (node_map s))" and dm: "dom (map_of (node_map s)) = K"
    and lk: "\<And>k' b. map_of (node_map s) k' = Some b \<longleftrightarrow> b \<in> set as \<and> nkey (heap s b) = Some k'"
    unfolding lru_map_def by blast+
  have m3: "\<forall>k' b. map_of (node_map ?s') k' = Some b \<longleftrightarrow>
              b \<in> set bs \<and> nkey (heap ?s' b) = Some k'"
  proof (intro allI)
    fix k' b
    show "map_of (node_map ?s') k' = Some b \<longleftrightarrow> b \<in> set bs \<and> nkey (heap ?s' b) = Some k'"
    proof (cases "k' = k")
      case True
      have "nkey (heap s b) = Some k \<and> b \<in> set as \<Longrightarrow> b = a" using lk[of k b] a by simp
      with True show ?thesis using k1 sb by (auto simp: same delete_conv')
    next
      case False
      have "b = a \<Longrightarrow> map_of (node_map s) k' \<noteq> Some b"
        using lk[of k' a] lk[of k a] a False by auto
      with False lk[of k' b] show ?thesis using k1 sb by (auto simp: same delete_conv')
    qed
  qed
  have "distinct (map fst (node_map ?s'))" using dn by (simp add: same distinct_delete)
  moreover have "dom (map_of (node_map ?s')) = K - {k}" using dm by (auto simp: same delete_conv')
  ultimately have "lru_map (K - {k}) ?s' bs" using m3 unfolding lru_map_def by (intro conjI)
  moreover have "lru_list ?s' bs" using l' by (simp add: lru_list_def)
  ultimately show ?thesis by (auto simp: lru_inv_def)
qed

lemma lru_on_delete_inv:
  assumes inv: "lru_inv K s" and k: "k \<in> K"
  shows "\<exists>s'. lru_on_delete k s = Inr s' \<and> lru_inv (K - {k}) s'"
proof -
  from inv obtain as where l: "lru_list s as" and m: "lru_map K s as" by (auto simp: lru_inv_def)
  from m k obtain a where a: "map_of (node_map s) k = Some a" by (auto simp: lru_map_def)
  with m have ain: "a \<in> set as" by (auto simp: lru_map_def)
  from ain obtain xs ys where as: "as = xs @ a # ys" by (auto simp: in_set_conv_decomp)
  from remove_node_list[OF l[unfolded as]] obtain s1 where
    r: "remove_node a s = Inr s1" and l1: "lru_list s1 (xs @ ys)" and
    same: "node_map s1 = node_map s" and k1: "\<forall>b. nkey (heap s1 b) = nkey (heap s b)" by blast
  from l have "distinct as" by (auto simp: lru_list_def)
  then have "set (xs @ ys) = set as - {a}" unfolding as by auto
  from lru_map_drop[OF m a l1 this same k1] r a show ?thesis
    by (simp add: lru_on_delete_def)
qed

lemma lru_evict_ok:
  assumes inv: "lru_inv K s" and ne: "K \<noteq> {}"
  shows "\<exists>x s'. x \<in> K \<and> peek_lru s = Inr (Some x) \<and>
           lru_evict s p =
             Inr (count_eviction (p\<lparr>cache := AList.delete x (cache p), variant := LRU s'\<rparr>)) \<and>
           lru_inv (K - {x}) s'"
proof -
  from inv obtain as where l: "lru_list s as" and m: "lru_map K s as" by (auto simp: lru_inv_def)
  from ne m obtain k0 a0 where "map_of (node_map s) k0 = Some a0" unfolding lru_map_def by blast
  with m have "a0 \<in> set as" by (auto simp: lru_map_def)
  then have "as \<noteq> []" by auto
  then obtain bs a where as: "as = bs @ [a]" by (metis rev_exhaust)
  from lru_list_last[OF l[unfolded as]] have pt: "prev (heap s (tail s)) = Some a" "a \<noteq> head s"
    by simp_all
  from l as have "nkey (heap s a) \<noteq> None" by (auto simp: lru_list_def)
  then obtain x where x: "nkey (heap s a) = Some x" by auto
  with m as have nm: "map_of (node_map s) x = Some a" by (auto simp: lru_map_def)
  with m have xK: "x \<in> K" unfolding lru_map_def by blast
  from l as have l0: "lru_list s (bs @ a # [])" by simp
  from remove_node_list[OF l0] obtain s1 where
    r: "remove_node a s = Inr s1" and l1: "lru_list s1 bs" and
    same: "node_map s1 = node_map s" and k1: "\<forall>b. nkey (heap s1 b) = nkey (heap s b)" by auto
  from l have "distinct as" by (auto simp: lru_list_def)
  then have sb: "set bs = set as - {a}" unfolding as by auto
  let ?s' = "s1\<lparr>node_map := AList.delete x (node_map s1)\<rparr>"
  have i': "lru_inv (K - {x}) ?s'" by (rule lru_map_drop[OF m nm l1 sb same k1])
  have "lru_evict s p =
          Inr (count_eviction (p\<lparr>cache := AList.delete x (cache p), variant := LRU ?s'\<rparr>))"
    using pt x r nm by (simp add: lru_evict_def Let_def same)
  moreover have "peek_lru s = Inr (Some x)" using peek_lru_list[OF l[unfolded as]] x by simp
  ultimately show ?thesis using xK i' by blast
qed

lemma lru_on_clear_inv:
  assumes "lru_inv K s"
  shows "lru_inv {} (lru_on_clear s)"
proof -
  from assms obtain as where l: "lru_list s as" by (auto simp: lru_inv_def)
  then have "head s \<noteq> tail s" "head s < fresh s" "tail s < fresh s" by (auto simp: lru_list_def)
  then have "lru_list (lru_on_clear s) []"
    by (simp add: lru_list_def lru_on_clear_def Let_def)
  moreover have "lru_map {} (lru_on_clear s) []"
    by (simp add: lru_map_def lru_on_clear_def Let_def)
  ultimately show ?thesis by (auto simp: lru_inv_def)
qed

lemma init_lru_inv: "lru_inv {} init_lru"
proof -
  have "lru_list init_lru []" by (simp add: lru_list_def init_lru_def)
  moreover have "lru_map {} init_lru []" by (simp add: lru_map_def init_lru_def)
  ultimately show ?thesis by (auto simp: lru_inv_def)
qed

section \<open>The hooks, whatever the variant\<close>

lemma variant_inv_weaken: "variant_inv K v \<Longrightarrow> variant_inv0 K v"
  by (cases v) (simp_all add: variant_inv_def variant_inv0_def lfu_inv_def)

lemma on_access_ok:
  assumes "variant_inv K (variant p)" and "k \<in> K"
  shows "\<exists>v'. on_access k now p =
                 Inr (p\<lparr>cache := accessed k now (variant p) (cache p), variant := v'\<rparr>) \<and>
               variant_inv K v' \<and> access_post k (variant p) v'"
proof (cases "variant p")
  case (FIFO s)
  with assms show ?thesis
    by (auto simp: on_access_def accessed_def access_post_def intro!: exI[of _ "FIFO s"])
next
  case (LRU s)
  with assms have "lru_inv K s" by (simp add: variant_inv_def)
  from lru_on_access_inv[OF this assms(2)] obtain s' where
    "lru_on_access k s = Inr s'" "lru_inv K s'" "peek_mru s' = Inr (Some k)" by blast
  with LRU show ?thesis
    by (auto simp: on_access_def accessed_def access_post_def variant_inv_def touch_entry_def
          intro!: exI[of _ "LRU s'"])
next
  case (LFU s)
  with assms have i: "lfu_inv K s" by (simp add: variant_inv_def)
  from increment_frequency_inv[OF i assms(2)] obtain s' cf where
    r: "increment_frequency k s = Inr s'" "lfu_inv K s'"
    "map_of (freq_key s) k = Some cf" "map_of (freq_key s') k = Some (Suc cf)" by blast
  from increment_frequency_bucket[OF i assms(2) r(1) r(3)] r LFU show ?thesis
    by (auto simp: on_access_def accessed_def access_post_def variant_inv_def touch_entry_def
          intro!: exI[of _ "LFU s'"])
qed

lemma evict_ok:
  assumes "variant_inv K (variant p)" and "K \<noteq> {}"
  shows "\<exists>x v'. x \<in> K \<and> evict_post x (variant p) \<and>
           evict p = Inr (count_eviction (p\<lparr>cache := AList.delete x (cache p), variant := v'\<rparr>)) \<and>
           variant_inv0 (K - {x}) v' \<and> same_kind (variant p) v'"
proof (cases "variant p")
  case (FIFO s)
  with assms have "fifo_inv K s" by (simp add: variant_inv_def)
  from fifo_evict_ok[OF this assms(2), of p] obtain x s' where
    "x \<in> K" "peek_next_eviction s = Some x"
    "fifo_evict s p = Inr (count_eviction (p\<lparr>cache := AList.delete x (cache p), variant := FIFO s'\<rparr>))"
    "fifo_inv (K - {x}) s'" by blast
  with FIFO show ?thesis
    by (auto simp: evict_def evict_post_def variant_inv0_def same_kind_def
          intro!: exI[of _ x] exI[of _ "FIFO s'"])
next
  case (LRU s)
  with assms have "lru_inv K s" by (simp add: variant_inv_def)
  from lru_evict_ok[OF this assms(2), of p] obtain x s' where
    "x \<in> K" "peek_lru s = Inr (Some x)"
    "lru_evict s p = Inr (count_eviction (p\<lparr>cache := AList.delete x (cache p), variant := LRU s'\<rparr>))"
    "lru_inv (K - {x}) s'" by blast
  with LRU show ?thesis
    by (auto simp: evict_def evict_post_def variant_inv0_def same_kind_def
          intro!: exI[of _ x] exI[of _ "LRU s'"])
next
  case (LFU s)
  with assms have "lfu_inv K s" by (simp add: variant_inv_def)
  from lfu_evict_struct[OF this assms(2), of p] obtain x s' where
    "x \<in> K" "peek_lfu s = Some x" "map_of (freq_key s) x = Some (min_freq s)"
    "lfu_evict s p = Inr (count_eviction (p\<lparr>cache := AList.delete x (cache p), variant := LFU s'\<rparr>))"
    "lfu_struct (K - {x}) s'" by blast
  with LFU show ?thesis
    by (auto simp: evict_def evict_post_def variant_inv0_def same_kind_def
          intro!: exI[of _ x] exI[of _ "LFU s'"])
qed

lemma on_insert_ok:
  assumes "variant_inv0 K (variant p)" and "k \<notin> K"
  shows "\<exists>v'. on_insert k p = Inr (p\<lparr>variant := v'\<rparr>) \<and>
               variant_inv (insert k K) v' \<and> insert_post k (variant p) v'"
proof (cases "variant p")
  case (FIFO s)
  with assms have "fifo_inv K s" by (simp add: variant_inv0_def)
  from fifo_on_insert_inv[OF this assms(2)] FIFO show ?thesis
    by (auto simp: on_insert_def insert_post_def variant_inv_def fifo_on_insert_def)
next
  case (LRU s)
  with assms have "lru_inv K s" by (simp add: variant_inv0_def)
  from lru_on_insert_inv[OF this assms(2)] obtain s' where
    "lru_on_insert k s = Inr s'" "lru_inv (insert k K) s'" "peek_mru s' = Inr (Some k)" by blast
  with LRU show ?thesis
    by (auto simp: on_insert_def insert_post_def variant_inv_def)
next
  case (LFU s)
  with assms have st: "lfu_struct K s" by (simp add: variant_inv0_def)
  from lfu_on_insert_inv[OF st assms(2)] lfu_on_insert_bucket[OF st assms(2)] LFU show ?thesis
    by (auto simp: on_insert_def insert_post_def variant_inv_def)
qed

lemma on_delete_ok:
  assumes "variant_inv K (variant p)" and "k \<in> K"
  shows "\<exists>v'. on_delete k p = Inr (p\<lparr>variant := v'\<rparr>) \<and> variant_inv (K - {k}) v'"
proof (cases "variant p")
  case (FIFO s)
  with assms have "fifo_inv K s" by (simp add: variant_inv_def)
  from fifo_on_delete_inv[OF this, of k] FIFO show ?thesis
    by (auto simp: on_delete_def variant_inv_def)
next
  case (LRU s)
  with assms have "lru_inv K s" by (simp add: variant_inv_def)
  from lru_on_delete_inv[OF this assms(2)] obtain s' where
    "lru_on_delete k s = Inr s'" "lru_inv (K - {k}) s'" by blast
  with LRU show ?thesis by (auto simp: on_delete_def variant_inv_def)
next
  case (LFU s)
  with assms have "lfu_inv K s" by (simp add: variant_inv_def)
  from lfu_on_delete_inv[OF this assms(2)] LFU show ?thesis
    by (auto simp: on_delete_def variant_inv_def)
qed

lemma on_clear_ok:
  assumes "variant_inv K (variant p)"
  shows "\<exists>v'. on_clear p = p\<lparr>variant := v'\<rparr> \<and> variant_inv {} v'"
proof (cases "variant p")
  case (FIFO s)
  then show ?thesis using fifo_on_clear_inv[of s] by (auto simp: on_clear_def variant_inv_def)
next
  case (LRU s)
  with assms have "lru_inv K s" by (simp add: variant_inv_def)
  from lru_on_clear_inv[OF this] LRU show ?thesis by (auto simp: on_clear_def variant_inv_def)
next
  case (LFU s)
  then show ?thesis using lfu_on_clear_inv[of s] by (auto simp: on_clear_def variant_inv_def)
qed

section \<open>The public operations keep the invariant and never raise\<close>

lemma dom_map_entry' [simp]: "dom (map_of (AList.map_entry k f c)) = dom (map_of c)"
  by (auto simp: map_of_map_entry split: option.splits if_splits)

lemma accessed_keys [simp]:
  "map fst (accessed k now v c) = map fst c" "length (accessed k now v c) = length c"
  "dom (map_of (accessed k now v c)) = dom (map_of c)"
  by (cases v; simp add: accessed_def)+

lemma accessed_lookup:
  "map_of (accessed k now v c) k' =
     (if k' = k \<and> (\<forall>s. v \<noteq> FIFO s) then map_option (touch now) (map_of c k) else map_of c k')"
  by (cases v) (auto simp: accessed_def map_of_map_entry split: option.splits)

lemma dom_update' [simp]: "dom (map_of (AList.update k v c)) = insert k (dom (map_of c))"
  by (simp add: update_conv')

lemma dom_delete' [simp]: "dom (map_of (AList.delete k c)) = dom (map_of c) - {k}"
  by (auto simp: delete_conv')

lemma in_dom_keys: "k \<in> dom (map_of c) \<longleftrightarrow> k \<in> fst ` set c"
  by (simp add: dom_map_of_conv_image_fst)

lemma get_miss:
  assumes "map_of (cache p) k = None"
  shows "get k now p = Inr (PyNone, p\<lparr>stats := (stats p)\<lparr>misses := misses (stats p) + 1\<rparr>\<rparr>)"
  using assms by (simp add: get_def)

lemma pinv_misses: "pinv p \<Longrightarrow> pinv (p\<lparr>stats := (stats p)\<lparr>misses := m\<rparr>\<rparr>)"
  by (simp add: pinv_def base_inv_def)

lemma get_hit:
  assumes inv: "pinv p" and e: "map_of (cache p) k = Some e"
  shows "\<exists>v' p'. get k now p = Inr (val e, p') \<and>
           p' = p\<lparr>stats := (stats p)\<lparr>hits := hits (stats p) + 1\<rparr>,
                  cache := accessed k now (variant p) (cache p), variant := v'\<rparr> \<and>
           pinv p' \<and> access_post k (variant p) v'"
proof -
  let ?K = "dom (map_of (cache p))"
  let ?p1 = "p\<lparr>stats := (stats p)\<lparr>hits := hits (stats p) + 1\<rparr>\<rparr>"
  from inv have vi: "variant_inv ?K (variant ?p1)" and b: "base_inv p" by (simp_all add: pinv_def)
  from e have kin: "k \<in> ?K" by auto
  from on_access_ok[OF vi kin, of now] obtain v' where
    r: "on_access k now ?p1 =
          Inr (?p1\<lparr>cache := accessed k now (variant ?p1) (cache ?p1), variant := v'\<rparr>)"
    and vi': "variant_inv ?K v'" and ap: "access_post k (variant ?p1) v'" by blast
  let ?p' = "p\<lparr>stats := (stats p)\<lparr>hits := hits (stats p) + 1\<rparr>,
                  cache := accessed k now (variant p) (cache p), variant := v'\<rparr>"
  have "get k now p = Inr (val e, ?p')" using e r by (simp add: get_def)
  moreover have "pinv ?p'" using b vi' by (simp add: pinv_def base_inv_def)
  moreover from ap have "access_post k (variant p) v'" by simp
  ultimately show ?thesis by blast
qed

lemma put_update:
  assumes inv: "pinv p" and e: "map_of (cache p) k = Some e"
  shows "\<exists>v' p'. put k v sz now p = Inr p' \<and>
           p' = p\<lparr>cache := accessed k now (variant p)
                             (AList.update k (e\<lparr>val := v, entry_size := sz\<rparr>) (cache p)),
                  variant := v'\<rparr> \<and>
           pinv p' \<and> access_post k (variant p) v'"
proof -
  let ?K = "dom (map_of (cache p))"
  let ?c1 = "AList.update k (e\<lparr>val := v, entry_size := sz\<rparr>) (cache p)"
  let ?p1 = "p\<lparr>cache := ?c1\<rparr>"
  from inv have vi: "variant_inv ?K (variant ?p1)" and b: "base_inv p" by (simp_all add: pinv_def)
  from e have kin: "k \<in> ?K" by auto
  then have ins: "insert k ?K = ?K" by auto
  have len: "length ?c1 = length (cache p)" using e by (simp add: length_update_old)
  have dis: "distinct (map fst ?c1)" using b by (simp add: base_inv_def distinct_update)
  from on_access_ok[OF vi kin, of now] obtain v' where
    r: "on_access k now ?p1 =
          Inr (?p1\<lparr>cache := accessed k now (variant ?p1) (cache ?p1), variant := v'\<rparr>)"
    and vi': "variant_inv ?K v'" and ap: "access_post k (variant ?p1) v'" by blast
  let ?p' = "p\<lparr>cache := accessed k now (variant p) ?c1, variant := v'\<rparr>"
  have upd: "on_update k now ?p1 = Inr ?p'"
  proof (cases "variant p")
    case (FIFO s)
    with ap have "v' = FIFO s" by (simp add: access_post_def)
    with FIFO show ?thesis by (simp add: on_update_def accessed_def)
  next
    case (LRU s)
    with r show ?thesis by (simp add: on_update_def)
  next
    case (LFU s)
    with r show ?thesis by (simp add: on_update_def)
  qed
  have "put k v sz now p = Inr ?p'" using e upd by (simp add: put_def update_entry_def)
  moreover have "pinv ?p'" using b vi' len dis ins by (simp add: pinv_def base_inv_def)
  moreover from ap have "access_post k (variant p) v'" by simp
  ultimately show ?thesis by blast
qed

lemma update_new: "map_of c k = None \<Longrightarrow> AList.update k v c = c @ [(k, v)]"
  by (induction c) (auto split: if_splits)

lemma insert_entry_ok:
  assumes cap: "0 < capacity p" and d: "distinct (map fst (cache p))"
    and room: "int (length (cache p)) < capacity p" and mx: "max_size (stats p) = capacity p"
    and vi: "variant_inv0 (dom (map_of (cache p))) (variant p)"
    and k: "map_of (cache p) k = None"
  shows "\<exists>v' p'. insert_entry k v sz now p = Inr p' \<and>
           p' = p\<lparr>cache := cache p @ [(k, new_entry k v sz now)],
                  stats := (stats p)\<lparr>current_size_stat := Suc (length (cache p))\<rparr>,
                  variant := v'\<rparr> \<and>
           pinv p' \<and> insert_post k (variant p) v'"
proof -
  let ?K = "dom (map_of (cache p))"
  let ?c1 = "cache p @ [(k, new_entry k v sz now)]"
  let ?p2 = "p\<lparr>cache := ?c1, stats := (stats p)\<lparr>current_size_stat := Suc (length (cache p))\<rparr>\<rparr>"
  from k have kn: "k \<notin> ?K" by auto
  then have kn': "k \<notin> fst ` set (cache p)" by (simp add: in_dom_keys)
  from vi have vi2: "variant_inv0 ?K (variant ?p2)" by simp
  from on_insert_ok[OF vi2 kn] obtain v' where
    r: "on_insert k ?p2 = Inr (?p2\<lparr>variant := v'\<rparr>)" and vi': "variant_inv (insert k ?K) v'"
    and ip: "insert_post k (variant ?p2) v'" by blast
  let ?p' = "p\<lparr>cache := ?c1, stats := (stats p)\<lparr>current_size_stat := Suc (length (cache p))\<rparr>,
                variant := v'\<rparr>"
  have "insert_entry k v sz now p = Inr ?p'"
    using r k by (simp add: insert_entry_def Let_def update_new current_size_def new_entry_def)
  moreover have "dom (map_of ?c1) = insert k ?K" by auto
  then have "pinv ?p'" using cap d room mx vi' kn' by (simp add: pinv_def base_inv_def)
  moreover from ip have "insert_post k (variant p) v'" by simp
  ultimately show ?thesis by blast
qed

lemma put_new_room:
  assumes inv: "pinv p" and k: "map_of (cache p) k = None" and nf: "\<not> is_full p"
  shows "\<exists>v' p'. put k v sz now p = Inr p' \<and>
           p' = p\<lparr>cache := cache p @ [(k, new_entry k v sz now)],
                  stats := (stats p)\<lparr>current_size_stat := Suc (length (cache p))\<rparr>,
                  variant := v'\<rparr> \<and>
           pinv p' \<and> insert_post k (variant p) v'"
proof -
  from inv have b: "base_inv p" and vi: "variant_inv (dom (map_of (cache p))) (variant p)"
    by (simp_all add: pinv_def)
  from nf have room: "int (length (cache p)) < capacity p" by (simp add: is_full_def current_size_def)
  from b have c: "0 < capacity p" "distinct (map fst (cache p))" "max_size (stats p) = capacity p"
    by (simp_all add: base_inv_def)
  from insert_entry_ok[OF c(1) c(2) room c(3) variant_inv_weaken[OF vi] k, of v sz now]
  show ?thesis using k nf by (simp add: put_def)
qed

lemma put_new_full:
  assumes inv: "pinv p" and k: "map_of (cache p) k = None" and full: "is_full p"
  shows "\<exists>x v1 p1 v' p'. x \<in> dom (map_of (cache p)) \<and> evict_post x (variant p) \<and>
           evict p = Inr p1 \<and>
           p1 = count_eviction (p\<lparr>cache := AList.delete x (cache p), variant := v1\<rparr>) \<and>
           Suc (length (cache p1)) = length (cache p) \<and> same_kind (variant p) v1 \<and>
           put k v sz now p = insert_entry k v sz now p1 \<and>
           put k v sz now p = Inr p' \<and>
           p' = p1\<lparr>cache := cache p1 @ [(k, new_entry k v sz now)],
                   stats := (stats p1)\<lparr>current_size_stat := Suc (length (cache p1))\<rparr>,
                   variant := v'\<rparr> \<and>
           pinv p' \<and> insert_post k v1 v'"
proof -
  let ?K = "dom (map_of (cache p))"
  from inv have b: "base_inv p" and vi: "variant_inv ?K (variant p)"
    by (simp_all add: pinv_def)
  from b have c: "0 < capacity p" "distinct (map fst (cache p))" "max_size (stats p) = capacity p"
    "int (length (cache p)) \<le> capacity p"
    by (simp_all add: base_inv_def)
  from full c have len: "int (length (cache p)) = capacity p"
    by (simp add: is_full_def current_size_def)
  with c have "cache p \<noteq> []" by auto
  then have ne: "?K \<noteq> {}" by (cases "cache p") auto
  from evict_ok[OF vi ne] obtain x v1 where
    x: "x \<in> ?K" and ep: "evict_post x (variant p)" and
    ev: "evict p = Inr (count_eviction (p\<lparr>cache := AList.delete x (cache p), variant := v1\<rparr>))" and
    vi1: "variant_inv0 (?K - {x}) v1" and sk: "same_kind (variant p) v1" by blast
  let ?p1 = "count_eviction (p\<lparr>cache := AList.delete x (cache p), variant := v1\<rparr>)"
  have c1: "cache ?p1 = AList.delete x (cache p)" "variant ?p1 = v1" "capacity ?p1 = capacity p"
    "max_size (stats ?p1) = capacity p"
    using c by (simp_all add: count_eviction_def)
  have l1: "Suc (length (cache ?p1)) = length (cache p)"
    using length_delete_in[OF c(2), of x] x by (simp add: c1 in_dom_keys)
  have d1: "distinct (map fst (cache ?p1))" using c by (simp add: c1 distinct_delete)
  have k1: "map_of (cache ?p1) k = None" using k by (simp add: c1 delete_conv')
  have room: "int (length (cache ?p1)) < capacity ?p1" using l1 len by (simp add: c1)
  have vi1': "variant_inv0 (dom (map_of (cache ?p1))) (variant ?p1)" using vi1 by (simp add: c1)
  have cap1: "0 < capacity ?p1" using c by (simp add: c1)
  have mx1: "max_size (stats ?p1) = capacity ?p1" by (simp add: c1)
  from insert_entry_ok[OF cap1 d1 room mx1 vi1' k1, of v sz now] obtain v' p' where
    ie: "insert_entry k v sz now ?p1 = Inr p'" and
    p': "p' = ?p1\<lparr>cache := cache ?p1 @ [(k, new_entry k v sz now)],
                  stats := (stats ?p1)\<lparr>current_size_stat := Suc (length (cache ?p1))\<rparr>,
                  variant := v'\<rparr>" and
    pi: "pinv p'" and ip: "insert_post k (variant ?p1) v'" by blast
  have pe: "put k v sz now p = insert_entry k v sz now ?p1"
    using k full ev by (simp add: put_def)
  from x ep ev l1 sk pe ie p' pi ip c1(2) show ?thesis by metis
qed

lemma delete_absent: "map_of (cache p) k = None \<Longrightarrow> delete k p = Inr (False, p)"
  by (simp add: delete_def)

lemma delete_present:
  assumes inv: "pinv p" and e: "map_of (cache p) k = Some e"
  shows "\<exists>v' p'. delete k p = Inr (True, p') \<and>
           p' = p\<lparr>variant := v', cache := AList.delete k (cache p),
                  stats := (stats p)\<lparr>current_size_stat := length (AList.delete k (cache p))\<rparr>\<rparr> \<and>
           pinv p'"
proof -
  let ?K = "dom (map_of (cache p))"
  from inv have b: "base_inv p" and vi: "variant_inv ?K (variant p)" by (simp_all add: pinv_def)
  from e have kin: "k \<in> ?K" by auto
  from on_delete_ok[OF vi kin] obtain v' where
    r: "on_delete k p = Inr (p\<lparr>variant := v'\<rparr>)" and vi': "variant_inv (?K - {k}) v'" by blast
  let ?p' = "p\<lparr>variant := v', cache := AList.delete k (cache p),
                stats := (stats p)\<lparr>current_size_stat := length (AList.delete k (cache p))\<rparr>\<rparr>"
  have "delete k p = Inr (True, ?p')"
    using e r by (simp add: delete_def dict_del_def Let_def current_size_def)
  moreover have "int (length (AList.delete k (cache p))) \<le> capacity p"
    using b length_delete_le[of k "cache p"] by (simp add: base_inv_def)
  then have "pinv ?p'" using b vi' by (simp add: pinv_def base_inv_def distinct_delete)
  ultimately show ?thesis by blast
qed

lemma clear_ok:
  assumes "pinv p"
  shows "pinv (clear p) \<and> cache (clear p) = [] \<and> capacity (clear p) = capacity p"
proof -
  from assms have b: "base_inv p" and vi: "variant_inv (dom (map_of (cache p))) (variant p)"
    by (simp_all add: pinv_def)
  then have "variant_inv (dom (map_of (cache p))) (variant (p\<lparr>cache := []\<rparr>))" by simp
  from on_clear_ok[OF this] obtain v' where
    "on_clear (p\<lparr>cache := []\<rparr>) = p\<lparr>cache := [], variant := v'\<rparr>" "variant_inv {} v'" by auto
  with b show ?thesis by (simp add: clear_def Let_def pinv_def base_inv_def)
qed

lemma reset_stats_ok: "pinv p \<Longrightarrow> pinv (reset_stats p) \<and> capacity (reset_stats p) = capacity p"
  by (simp add: reset_stats_def pinv_def base_inv_def current_size_def)

lemma step_ok:
  assumes "pinv p"
  shows "\<exists>p'. step x p = Inr p' \<and> pinv p' \<and> capacity p' = capacity p"
proof (cases x)
  case (Get k now)
  show ?thesis
  proof (cases "map_of (cache p) k")
    case None
    with Get assms show ?thesis by (simp add: get_miss pinv_misses)
  next
    case (Some e)
    from get_hit[OF assms Some, of now] Get show ?thesis by auto
  qed
next
  case (Put k v sz now)
  show ?thesis
  proof (cases "map_of (cache p) k")
    case (Some e)
    from put_update[OF assms Some, of v sz now] Put show ?thesis by auto
  next
    case None
    show ?thesis
    proof (cases "is_full p")
      case True
      from put_new_full[OF assms None True, of v sz now] Put show ?thesis
        by (auto simp: count_eviction_def)
    next
      case False
      from put_new_room[OF assms None False, of v sz now] Put show ?thesis by auto
    qed
  qed
next
  case (Delete k)
  show ?thesis
  proof (cases "map_of (cache p) k")
    case None
    with Delete assms show ?thesis by (simp add: delete_absent)
  next
    case (Some e)
    from delete_present[OF assms Some] Delete show ?thesis by auto
  qed
next
  case Clear
  with clear_ok[OF assms] show ?thesis by simp
next
  case ResetStats
  with reset_stats_ok[OF assms] show ?thesis by simp
qed

lemma run_ok: "pinv p \<Longrightarrow> \<exists>p'. run xs p = Inr p' \<and> pinv p' \<and> capacity p' = capacity p"
proof (induction xs arbitrary: p)
  case Nil
  then show ?case by simp
next
  case (Cons x xs)
  from step_ok[OF Cons.prems, of x] obtain p1 where
    s: "step x p = Inr p1" "pinv p1" "capacity p1 = capacity p" by blast
  from Cons.IH[OF s(2)] s show ?case by auto
qed

lemma constructed_pinv: "constructed p \<Longrightarrow> pinv p"
  using init_lru_inv
  by (auto simp: constructed_def FIFOCache_def LRUCache_def LFUCache_def init_policy_def
        pinv_def base_inv_def variant_inv_def fifo_inv_def lfu_inv_def lfu_struct_def
        min_freq_ok_def split: if_splits)

lemma reachable_pinv: "reachable p \<Longrightarrow> pinv p"
  using run_ok constructed_pinv unfolding reachable_def by (metis Inr_inject)

lemma run_append: "run (xs @ ys) p = and_then (run xs p) (run ys)"
  by (induction xs arbitrary: p) (auto simp: and_then_def split: sum.splits)

lemma reachable_step: "reachable p \<Longrightarrow> step x p = Inr p' \<Longrightarrow> reachable p'"
  unfolding reachable_def
  by (metis run_append and_then_Inr run.simps)

lemma constructed_reachable: "constructed p \<Longrightarrow> reachable p"
  unfolding reachable_def by (metis run.simps(1))

lemma reachable_get: "reachable p \<Longrightarrow> get k now p = Inr (v, p') \<Longrightarrow> reachable p'"
  using reachable_step[of p "Get k now" p'] by simp

lemma reachable_put: "reachable p \<Longrightarrow> put k v sz now p = Inr p' \<Longrightarrow> reachable p'"
  using reachable_step[of p "Put k v sz now" p'] by simp

lemma reachable_delete: "reachable p \<Longrightarrow> delete k p = Inr (b, p') \<Longrightarrow> reachable p'"
  using reachable_step[of p "Delete k" p'] by simp

lemma val_accessed:
  "(case map_of (accessed k now v c) k' of None \<Rightarrow> PyNone | Some e \<Rightarrow> val e) =
   (case map_of c k' of None \<Rightarrow> PyNone | Some e \<Rightarrow> val e)"
  by (cases "map_of c k") (auto simp: accessed_lookup touch_def)

lemma map_of_snoc:
  "map_of (c @ [(k, e)]) k' =
     (case map_of c k' of Some x \<Rightarrow> Some x | None \<Rightarrow> if k' = k then Some e else None)"
  by (induction c) auto

lemma contains_dom: "contains k p \<longleftrightarrow> k \<in> dom (map_of (cache p))"
  by (auto simp: contains_def)

lemma get_total:
  assumes inv: "pinv p"
  shows "\<exists>p'. get k now p = Inr (stored k p, p') \<and> pinv p' \<and>
           (\<forall>k'. stored k' p' = stored k' p) \<and> (\<forall>k'. contains k' p' = contains k' p) \<and>
           hits (stats p') = hits (stats p) + (if contains k p then 1 else 0) \<and>
           misses (stats p') = misses (stats p) + (if contains k p then 0 else 1) \<and>
           capacity p' = capacity p"
proof (cases "map_of (cache p) k")
  case None
  with inv show ?thesis
    by (simp add: get_miss pinv_misses stored_def contains_def)
next
  case (Some e)
  from get_hit[OF inv Some, of now] obtain v' p' where
    g: "get k now p = Inr (val e, p')" and
    p': "p' = p\<lparr>stats := (stats p)\<lparr>hits := hits (stats p) + 1\<rparr>,
                  cache := accessed k now (variant p) (cache p), variant := v'\<rparr>" and
    i': "pinv p'" by blast
  have "\<forall>k'. stored k' p' = stored k' p"
    by (simp add: p' stored_def val_accessed)
  moreover have "\<forall>k'. contains k' p' = contains k' p" by (simp add: p' contains_dom)
  ultimately show ?thesis using g i' Some by (simp add: p' stored_def contains_def)
qed

lemma put_total:
  assumes inv: "pinv p"
  shows "\<exists>p'. put k v sz now p = Inr p' \<and> pinv p' \<and> stored k p' = v \<and> contains k p' \<and>
           hits (stats p') = hits (stats p) \<and> misses (stats p') = misses (stats p) \<and>
           capacity p' = capacity p"
proof (cases "map_of (cache p) k")
  case (Some e)
  from put_update[OF inv Some, of v sz now] obtain v' p' where
    g: "put k v sz now p = Inr p'" and
    p': "p' = p\<lparr>cache := accessed k now (variant p)
                             (AList.update k (e\<lparr>val := v, entry_size := sz\<rparr>) (cache p)),
                  variant := v'\<rparr>" and
    i': "pinv p'" by blast
  have "contains k p'" "stored k p' = v"
    by (auto simp: p' contains_def stored_def accessed_lookup update_conv' touch_def)
  moreover have "hits (stats p') = hits (stats p)" "misses (stats p') = misses (stats p)"
    "capacity p' = capacity p" by (simp_all add: p')
  ultimately show ?thesis using g i' by blast
next
  case None
  show ?thesis
  proof (cases "is_full p")
    case False
    from put_new_room[OF inv None False, of v sz now] obtain v' p' where
      g: "put k v sz now p = Inr p'" and
      p': "p' = p\<lparr>cache := cache p @ [(k, new_entry k v sz now)],
                  stats := (stats p)\<lparr>current_size_stat := Suc (length (cache p))\<rparr>,
                  variant := v'\<rparr>" and
      i': "pinv p'" by blast
    have "contains k p'" "stored k p' = v"
      using None
      by (simp_all add: p' contains_def stored_def new_entry_def map_of_snoc del: map_of_append)
    moreover have "hits (stats p') = hits (stats p)" "misses (stats p') = misses (stats p)"
      "capacity p' = capacity p" by (simp_all add: p')
    ultimately show ?thesis using g i' by blast
  next
    case True
    from put_new_full[OF inv None True, of v sz now] obtain x v1 p1 v' p' where
      p1: "p1 = count_eviction (p\<lparr>cache := AList.delete x (cache p), variant := v1\<rparr>)" and
      g: "put k v sz now p = Inr p'" and
      p': "p' = p1\<lparr>cache := cache p1 @ [(k, new_entry k v sz now)],
                   stats := (stats p1)\<lparr>current_size_stat := Suc (length (cache p1))\<rparr>,
                   variant := v'\<rparr>" and
      i': "pinv p'" by blast
    have "map_of (cache p1) k = None" using None by (simp add: p1 count_eviction_def delete_conv')
    then have "contains k p'" "stored k p' = v"
      by (simp_all add: p' contains_def stored_def new_entry_def map_of_snoc del: map_of_append)
    moreover have "hits (stats p') = hits (stats p)" "misses (stats p') = misses (stats p)"
      "capacity p' = capacity p" by (simp_all add: p' p1 count_eviction_def)
    ultimately show ?thesis using g i' by blast
  qed
qed

lemma lfu_get_variant:
  assumes "variant p = LFU s" and "map_of (cache p) k = Some e"
    and "increment_frequency k s = Inr s'"
  shows "\<exists>p'. get k now p = Inr (val e, p') \<and> variant p' = LFU s'"
  using assms by (simp add: get_def on_access_def Let_def)

lemma lfu_update_variant:
  assumes "variant p = LFU s" and "map_of (cache p) k = Some e"
    and "increment_frequency k s = Inr s'"
  shows "\<exists>p'. put k v sz now p = Inr p' \<and> variant p' = LFU s'"
  using assms by (simp add: put_def update_entry_def on_update_def on_access_def Let_def)

lemma lfu_insert_variant:
  assumes "variant p = LFU s"
  shows "\<exists>p'. insert_entry k v sz now p = Inr p' \<and> variant p' = LFU (lfu_on_insert k s) \<and>
           cache p' = AList.update k (new_entry k v sz now) (cache p)"
  using assms by (simp add: insert_entry_def on_insert_def Let_def new_entry_def)

lemma lfu_delete_variant:
  assumes "variant p = LFU s" and "map_of (cache p) k = Some e"
  shows "\<exists>p'. delete k p = Inr (True, p') \<and> variant p' = LFU (lfu_on_delete k s) \<and>
           cache p' = AList.delete k (cache p)"
  using assms by (simp add: delete_def on_delete_def dict_del_def Let_def)

lemma reachable_projr:
  "constructed p0 \<Longrightarrow> \<not> isl (run ops p0) \<Longrightarrow> reachable (projr (run ops p0))"
  unfolding reachable_def by (cases "run ops p0") auto

section \<open>The hierarchy operations\<close>

lemma reachable_get_total:
  assumes "reachable p"
  shows "\<exists>p'. get k now p = Inr (stored k p, p') \<and> reachable p' \<and>
           (\<forall>k'. stored k' p' = stored k' p) \<and> (\<forall>k'. contains k' p' = contains k' p)"
proof -
  from get_total[OF reachable_pinv[OF assms], of k now] obtain p' where
    g: "get k now p = Inr (stored k p, p')" and
    s: "\<forall>k'. stored k' p' = stored k' p" "\<forall>k'. contains k' p' = contains k' p" by blast
  from reachable_get[OF assms g] g s show ?thesis by blast
qed

lemma reachable_put_total:
  assumes "reachable p"
  shows "\<exists>p'. put k v sz now p = Inr p' \<and> reachable p' \<and> stored k p' = v \<and> contains k p'"
proof -
  from put_total[OF reachable_pinv[OF assms], of k v sz now] obtain p' where
    g: "put k v sz now p = Inr p'" and s: "stored k p' = v" "contains k p'" by blast
  from reachable_put[OF assms g] g s show ?thesis by blast
qed

lemma put_levels_ok:
  assumes "\<forall>l \<in> set ls. reachable (lcache l)"
  shows "\<exists>ls'. put_levels k v tp i ls = Inr ls' \<and> list_all2 (written k v) ls ls' \<and>
           (\<forall>j < length ls. put k v 1 (tp (i + j)) (lcache (ls ! j)) = Inr (lcache (ls' ! j)))"
  using assms
proof (induction ls arbitrary: i)
  case Nil
  then show ?case by simp
next
  case (Cons l ls)
  from Cons.prems have rl: "reachable (lcache l)" by simp
  from reachable_put_total[OF rl, of k v 1 "tp i"] obtain c where
    c: "put k v 1 (tp i) (lcache l) = Inr c" "reachable c" "stored k c = v" "contains k c" by blast
  from Cons.prems have "\<forall>l \<in> set ls. reachable (lcache l)" by simp
  from Cons.IH[OF this, of "Suc i"] obtain ls' where
    r: "put_levels k v tp (Suc i) ls = Inr ls'" and w: "list_all2 (written k v) ls ls'" and
    p: "\<forall>j < length ls. put k v 1 (tp (Suc i + j)) (lcache (ls ! j)) = Inr (lcache (ls' ! j))"
    by blast
  let ?l' = "l\<lparr>lcache := c\<rparr>"
  have "put_levels k v tp i (l # ls) = Inr (?l' # ls')" using c r by simp
  moreover have "list_all2 (written k v) (l # ls) (?l' # ls')"
    using c w by (simp add: written_def)
  moreover have "\<forall>j < length (l # ls).
      put k v 1 (tp (i + j)) (lcache ((l # ls) ! j)) = Inr (lcache ((?l' # ls') ! j))"
  proof (intro allI impI)
    fix j assume "j < length (l # ls)"
    then show "put k v 1 (tp (i + j)) (lcache ((l # ls) ! j)) = Inr (lcache ((?l' # ls') ! j))"
      using c p by (cases j) auto
  qed
  ultimately show ?case by blast
qed

lemma scan_levels_miss:
  assumes "\<forall>l \<in> set ls. reachable (lcache l) \<and> stored k (lcache l) = PyNone"
  shows "\<exists>ls'. scan_levels k tg i cum ls = Inr (ls', Exhausted) \<and> list_all2 missed ls ls'"
  using assms
proof (induction ls arbitrary: i cum)
  case Nil
  then show ?case by simp
next
  case (Cons l ls)
  from Cons.prems have rl: "reachable (lcache l)" and sl: "stored k (lcache l) = PyNone" by simp_all
  from reachable_get_total[OF rl, of k "tg i"] sl obtain c where
    c: "get k (tg i) (lcache l) = Inr (PyNone, c)" "reachable c" by auto
  from Cons.prems have "\<forall>l \<in> set ls. reachable (lcache l) \<and> stored k (lcache l) = PyNone" by simp
  from Cons.IH[OF this, of "Suc i" "cum + latency_ms l"] obtain ls' where
    r: "scan_levels k tg (Suc i) (cum + latency_ms l) ls = Inr (ls', Exhausted)" and
    m: "list_all2 missed ls ls'" by blast
  let ?st1 = "(lstats l)\<lparr>ls_total_latency_ms := ls_total_latency_ms (lstats l) + latency_ms l\<rparr>"
  let ?l' = "l\<lparr>lcache := c, lstats := ?st1\<lparr>ls_misses := ls_misses ?st1 + 1\<rparr>\<rparr>"
  have "scan_levels k tg i cum (l # ls) = Inr (?l' # ls', Exhausted)"
    using c r by (simp add: Let_def)
  moreover have "missed l ?l'" using c by (simp add: missed_def)
  ultimately show ?case using m by auto
qed

lemma scanned_refl: "reachable (lcache l) \<Longrightarrow> scanned l l"
  by (simp add: scanned_def)

lemma scan_levels_hit:
  assumes "\<forall>l \<in> set ls. reachable (lcache l)" and "n < length ls"
    and "\<forall>j < n. stored k (lcache (ls ! j)) = PyNone"
    and "stored k (lcache (ls ! n)) = v" and "v \<noteq> PyNone"
  shows "\<exists>ls'. scan_levels k tg i cum ls =
                  Inr (ls', Hit (i + n) v (cum + sum_list (map latency_ms (take (Suc n) ls)))) \<and>
               list_all2 scanned ls ls'"
  using assms
proof (induction ls arbitrary: i cum n)
  case Nil
  then show ?case by simp
next
  case (Cons l ls)
  from Cons.prems have rl: "reachable (lcache l)" and rs: "\<forall>l \<in> set ls. reachable (lcache l)"
    by simp_all
  from reachable_get_total[OF rl, of k "tg i"] obtain c where
    c: "get k (tg i) (lcache l) = Inr (stored k (lcache l), c)" "reachable c"
    "\<forall>k'. stored k' c = stored k' (lcache l)" "\<forall>k'. contains k' c = contains k' (lcache l)"
    by blast
  let ?st1 = "(lstats l)\<lparr>ls_total_latency_ms := ls_total_latency_ms (lstats l) + latency_ms l\<rparr>"
  show ?case
  proof (cases n)
    case 0
    with Cons.prems have sv: "stored k (lcache l) = v" by simp
    let ?l' = "l\<lparr>lcache := c, lstats := ?st1\<lparr>ls_hits := ls_hits ?st1 + 1\<rparr>\<rparr>"
    have "scan_levels k tg i cum (l # ls) = Inr (?l' # ls, Hit i v (cum + latency_ms l))"
      using c sv Cons.prems(5) by (simp add: Let_def)
    moreover have "scanned l ?l'" using c by (simp add: scanned_def)
    moreover have "list_all2 scanned ls ls" using rs by (simp add: list_all2_same scanned_refl)
    ultimately show ?thesis using 0 by auto
  next
    case (Suc m)
    with Cons.prems have sv: "stored k (lcache l) = PyNone" by auto
    from Suc Cons.prems have m: "m < length ls" "\<forall>j < m. stored k (lcache (ls ! j)) = PyNone"
      "stored k (lcache (ls ! m)) = v" by auto
    from Cons.IH[OF rs m Cons.prems(5), of "Suc i" "cum + latency_ms l"] obtain ls' where
      r: "scan_levels k tg (Suc i) (cum + latency_ms l) ls =
            Inr (ls', Hit (Suc i + m) v (cum + latency_ms l + sum_list (map latency_ms (take (Suc m) ls))))"
      and s: "list_all2 scanned ls ls'" by blast
    let ?l' = "l\<lparr>lcache := c, lstats := ?st1\<lparr>ls_misses := ls_misses ?st1 + 1\<rparr>\<rparr>"
    have "scan_levels k tg i cum (l # ls) =
            Inr (?l' # ls', Hit (i + n) v (cum + sum_list (map latency_ms (take (Suc n) (l # ls)))))"
      using c sv r Suc by (simp add: Let_def add.assoc)
    moreover have "scanned l ?l'" using c by (simp add: scanned_def)
    ultimately show ?thesis using s by auto
  qed
qed

lemma promote_loop_ok:
  assumes "distinct js" and "\<forall>j \<in> set js. j < length (levels h)"
    and "\<forall>l \<in> set (levels h). reachable (lcache l)"
  shows "\<exists>h'. promote_loop k v tp js h = Inr h' \<and>
           h' = h\<lparr>levels := levels h', total_promotions := total_promotions h + length js\<rparr> \<and>
           length (levels h') = length (levels h) \<and>
           (\<forall>j < length (levels h).
              (j \<in> set js \<longrightarrow> promoted k v (levels h ! j) (levels h' ! j)) \<and>
              (j \<notin> set js \<longrightarrow> levels h' ! j = levels h ! j))"
  using assms
proof (induction js arbitrary: h)
  case Nil
  then show ?case by simp
next
  case (Cons j js)
  let ?u = "levels h ! j"
  from Cons.prems have jl: "j < length (levels h)" and jn: "j \<notin> set js" and dj: "distinct js"
    by simp_all
  from Cons.prems jl have ru: "reachable (lcache ?u)" by simp
  from reachable_put_total[OF ru, of k v 1 "tp j"] obtain c where
    c: "put k v 1 (tp j) (lcache ?u) = Inr c" "reachable c" "stored k c = v" "contains k c" by blast
  let ?u' = "?u\<lparr>lcache := c, lstats := (lstats ?u)\<lparr>promotions := promotions (lstats ?u) + 1\<rparr>\<rparr>"
  let ?h1 = "h\<lparr>levels := (levels h)[j := ?u'], total_promotions := total_promotions h + 1\<rparr>"
  have pu: "promoted k v ?u ?u'" using c by (simp add: promoted_def)
  have step: "promote_loop k v tp (j # js) h = promote_loop k v tp js ?h1"
    using jl c by (simp add: Let_def)
  have b1: "\<forall>j' \<in> set js. j' < length (levels ?h1)" using Cons.prems by simp
  have r1: "\<forall>l \<in> set (levels ?h1). reachable (lcache l)"
  proof
    fix l assume "l \<in> set (levels ?h1)"
    then have "l \<in> set ((levels h)[j := ?u'])" by simp
    then have "l = ?u' \<or> l \<in> set (levels h)" using set_update_subset_insert by fastforce
    with c Cons.prems(3) show "reachable (lcache l)" by auto
  qed
  from Cons.IH[OF dj b1 r1] obtain h' where
    r: "promote_loop k v tp js ?h1 = Inr h'" and
    e: "h' = ?h1\<lparr>levels := levels h', total_promotions := total_promotions ?h1 + length js\<rparr>" and
    len: "length (levels h') = length (levels ?h1)" and
    lv: "\<forall>j' < length (levels ?h1).
            (j' \<in> set js \<longrightarrow> promoted k v (levels ?h1 ! j') (levels h' ! j')) \<and>
            (j' \<notin> set js \<longrightarrow> levels h' ! j' = levels ?h1 ! j')" by blast
  have e': "h' = h\<lparr>levels := levels h', total_promotions := total_promotions h + length (j # js)\<rparr>"
    by (subst e) simp
  have len': "length (levels h') = length (levels h)" using len by simp
  have "\<forall>j' < length (levels h).
          (j' \<in> set (j # js) \<longrightarrow> promoted k v (levels h ! j') (levels h' ! j')) \<and>
          (j' \<notin> set (j # js) \<longrightarrow> levels h' ! j' = levels h ! j')"
  proof (intro allI impI)
    fix j' assume j': "j' < length (levels h)"
    then have l1: "j' < length (levels ?h1)" by simp
    show "(j' \<in> set (j # js) \<longrightarrow> promoted k v (levels h ! j') (levels h' ! j')) \<and>
          (j' \<notin> set (j # js) \<longrightarrow> levels h' ! j' = levels h ! j')"
    proof (cases "j' = j")
      case True
      with lv l1 jn have "levels h' ! j = levels ?h1 ! j" by blast
      with jl have "levels h' ! j = ?u'" by simp
      with True pu show ?thesis by simp
    next
      case False
      then have "levels ?h1 ! j' = levels h ! j'" by simp
      with lv l1 False show ?thesis by auto
    qed
  qed
  with step r e' len' show ?case by (simp only:) blast
qed

lemma hierarchy_ok_levels: "hierarchy_ok h \<Longrightarrow> \<forall>l \<in> set (levels h). reachable (lcache l)"
  by (simp add: hierarchy_ok_def)

lemma hget_hit:
  assumes ok: "hierarchy_ok h" and n: "n < length (levels h)"
    and below: "\<forall>j < n. stored k (lcache (levels h ! j)) = PyNone"
    and at: "stored k (lcache (levels h ! n)) = v" and v: "v \<noteq> PyNone"
  shows "\<exists>h'. hget k tg tp h = Inr (v, h') \<and>
           length (levels h') = length (levels h) \<and>
           total_hits h' = total_hits h + 1 \<and> total_misses h' = total_misses h \<and>
           total_promotions h' = total_promotions h + n \<and>
           total_latency_ms h' =
             total_latency_ms h + sum_list (map latency_ms (take (Suc n) (levels h))) \<and>
           (\<forall>j < n. contains k (lcache (levels h' ! j)) \<and> stored k (lcache (levels h' ! j)) = v \<and>
                    promotions (lstats (levels h' ! j)) = promotions (lstats (levels h ! j)) + 1) \<and>
           (\<forall>j. n \<le> j \<and> j < length (levels h) \<longrightarrow>
                    promotions (lstats (levels h' ! j)) = promotions (lstats (levels h ! j))) \<and>
           hierarchy_ok h'"
proof -
  from scan_levels_hit[OF hierarchy_ok_levels[OF ok] n below at v, of tg 0 0] obtain ls' where
    sc: "scan_levels k tg 0 0 (levels h) =
           Inr (ls', Hit n v (sum_list (map latency_ms (take (Suc n) (levels h)))))" and
    la: "list_all2 scanned (levels h) ls'" by auto
  from la have len: "length ls' = length (levels h)" by (simp add: list_all2_lengthD)
  from la have sj: "\<And>j. j < length (levels h) \<Longrightarrow> scanned (levels h ! j) (ls' ! j)"
    by (simp add: list_all2_nthD)
  let ?h1 = "h\<lparr>levels := ls', total_hits := total_hits h + 1,
               total_latency_ms := total_latency_ms h +
                  sum_list (map latency_ms (take (Suc n) (levels h)))\<rparr>"
  have r1: "\<forall>l \<in> set (levels ?h1). reachable (lcache l)"
  proof
    fix l assume "l \<in> set (levels ?h1)"
    then obtain j where "j < length ls'" "l = ls' ! j" by (auto simp: in_set_conv_nth)
    with sj[of j] len show "reachable (lcache l)" by (simp add: scanned_def)
  qed
  have b1: "\<forall>j \<in> set [0..<n]. j < length (levels ?h1)" using n len by simp
  from promote_loop_ok[OF distinct_upt b1 r1, of k v tp] obtain h' where
    pr: "promote_loop k v tp [0..<n] ?h1 = Inr h'" and
    e: "h' = ?h1\<lparr>levels := levels h', total_promotions := total_promotions ?h1 + length [0..<n]\<rparr>" and
    len': "length (levels h') = length (levels ?h1)" and
    lv: "\<forall>j < length (levels ?h1).
            (j \<in> set [0..<n] \<longrightarrow> promoted k v (levels ?h1 ! j) (levels h' ! j)) \<and>
            (j \<notin> set [0..<n] \<longrightarrow> levels h' ! j = levels ?h1 ! j)" by blast
  have run: "hget k tg tp h = Inr (v, h')"
  proof (cases "n = 0")
    case True
    with pr have "h' = ?h1" by simp
    with sc True show ?thesis by (simp add: hget_def)
  next
    case False
    with sc pr show ?thesis by (simp add: hget_def promote_to_upper_levels_def)
  qed
  have tot: "total_hits h' = total_hits h + 1" "total_misses h' = total_misses h"
    "total_promotions h' = total_promotions h + n"
    "total_latency_ms h' =
       total_latency_ms h + sum_list (map latency_ms (take (Suc n) (levels h)))"
    by (subst e, simp)+
  have lo: "\<forall>j < n. contains k (lcache (levels h' ! j)) \<and> stored k (lcache (levels h' ! j)) = v \<and>
                    promotions (lstats (levels h' ! j)) = promotions (lstats (levels h ! j)) + 1"
  proof (intro allI impI)
    fix j assume j: "j < n"
    with n len lv have "promoted k v (ls' ! j) (levels h' ! j)" by simp
    moreover from j n sj[of j] have "promotions (lstats (ls' ! j)) = promotions (lstats (levels h ! j))"
      by (simp add: scanned_def)
    ultimately show "contains k (lcache (levels h' ! j)) \<and> stored k (lcache (levels h' ! j)) = v \<and>
                    promotions (lstats (levels h' ! j)) = promotions (lstats (levels h ! j)) + 1"
      by (simp add: promoted_def)
  qed
  have hi: "\<forall>j. n \<le> j \<and> j < length (levels h) \<longrightarrow>
                    promotions (lstats (levels h' ! j)) = promotions (lstats (levels h ! j))"
  proof (intro allI impI)
    fix j assume j: "n \<le> j \<and> j < length (levels h)"
    with len lv have "levels h' ! j = ls' ! j" by simp
    with j sj[of j] show "promotions (lstats (levels h' ! j)) = promotions (lstats (levels h ! j))"
      by (simp add: scanned_def)
  qed
  have ok': "hierarchy_ok h'"
    unfolding hierarchy_ok_def
  proof
    fix l assume "l \<in> set (levels h')"
    then obtain j where j: "j < length (levels h')" "l = levels h' ! j"
      by (auto simp: in_set_conv_nth)
    show "reachable (lcache l)"
    proof (cases "j < n")
      case True
      with j len' len lv have "promoted k v (ls' ! j) l" by simp
      then show ?thesis by (simp add: promoted_def)
    next
      case False
      with j len' len lv have "l = ls' ! j" by simp
      with j len' len sj[of j] show ?thesis by (simp add: scanned_def)
    qed
  qed
  from run len' len tot lo hi ok' show ?thesis by simp
qed

lemma hget_miss:
  assumes ok: "hierarchy_ok h"
    and miss: "\<forall>l \<in> set (levels h). stored k (lcache l) = PyNone"
  shows "\<exists>ls'. hget k tg tp h = Inr (PyNone, h\<lparr>levels := ls', total_misses := total_misses h + 1\<rparr>) \<and>
           list_all2 missed (levels h) ls'"
proof -
  from ok miss have "\<forall>l \<in> set (levels h). reachable (lcache l) \<and> stored k (lcache l) = PyNone"
    by (simp add: hierarchy_ok_def)
  from scan_levels_miss[OF this, of tg 0 0] obtain ls' where
    "scan_levels k tg 0 0 (levels h) = Inr (ls', Exhausted)" "list_all2 missed (levels h) ls'"
    by blast
  then show ?thesis by (auto simp: hget_def)
qed

lemma hput_ok:
  assumes ok: "hierarchy_ok h" and ne: "levels h \<noteq> []"
  shows "\<exists>ls'. hput k v tp h = Inr (h\<lparr>levels := ls'\<rparr>) \<and> list_all2 (written k v) (levels h) ls' \<and>
           (\<forall>j < length (levels h).
              put k v 1 (tp j) (lcache (levels h ! j)) = Inr (lcache (ls' ! j)))"
proof -
  from put_levels_ok[OF hierarchy_ok_levels[OF ok], of k v tp 0] obtain ls' where
    "put_levels k v tp 0 (levels h) = Inr ls'" "list_all2 (written k v) (levels h) ls'"
    "\<forall>j < length (levels h). put k v 1 (tp (0 + j)) (lcache (levels h ! j)) = Inr (lcache (ls' ! j))"
    by blast
  with ne show ?thesis by (auto simp: hput_def)
qed

section \<open>Facts about the example instances\<close>

lemma example_fifo_constructed: "FIFOCache 1 ''FIFO'' = Inr example_fifo"
  by (simp add: FIFOCache_def init_policy_def example_fifo_def)

lemma example_lru_constructed: "LRUCache 2 ''LRUCache'' = Inr example_lru"
  by (simp add: LRUCache_def init_policy_def example_lru_def)

lemma example_lfu_constructed: "LFUCache 2 ''LFUCache'' = Inr example_lfu"
  by (simp add: LFUCache_def init_policy_def example_lfu_def)

lemma examples_constructed:
  "constructed example_fifo" "constructed example_lru" "constructed example_lfu"
  unfolding constructed_def
  using example_fifo_constructed example_lru_constructed example_lfu_constructed by blast+

lemmas eval_defs =
  put_def get_def delete_def clear_def reset_stats_def is_full_def current_size_def
  insert_entry_def update_entry_def on_insert_def on_access_def on_update_def on_delete_def
  on_clear_def evict_def count_eviction_def touch_entry_def touch_def dict_del_def
  fifo_evict_def fifo_on_insert_def fifo_on_delete_def fifo_on_clear_def
  lfu_evict_def lfu_on_insert_def lfu_on_delete_def lfu_on_clear_def increment_frequency_def
  dd_touch_def dd_read_def od_set_def od_del_def
  lru_evict_def lru_on_access_def lru_on_insert_def lru_on_delete_def lru_on_clear_def
  move_to_front_def remove_node_def add_to_front_def new_node_def init_lru_def
  contains_def Let_def

lemma example_lfu_full_eq:
  "run [Put 1 (PyVal 10) 1 0, Put 2 (PyVal 20) 1 1, Get 1 2] example_lfu =
     Inr \<lparr>capacity = 2, name = ''LFUCache'',
          cache = [(1, \<lparr>key = 1, val = PyVal 10, timestamp = 2, access_count = 2, entry_size = 1\<rparr>),
                   (2, \<lparr>key = 2, val = PyVal 20, timestamp = 1, access_count = 1, entry_size = 1\<rparr>)],
          stats = \<lparr>hits = 1, misses = 0, evictions = 0, current_size_stat = 2, max_size = 2\<rparr>,
          variant = LFU \<lparr>freq_map = [(1, [2]), (2, [1])], freq_key = [(1, 2), (2, 1)],
                         min_freq = 1\<rparr>\<rparr>"
  by (simp add: example_lfu_def eval_defs)

lemma example_lfu_full_reachable: "reachable example_lfu_full"
proof -
  have "\<not> isl (run [Put 1 (PyVal 10) 1 0, Put 2 (PyVal 20) 1 1, Get 1 2] example_lfu)"
    unfolding example_lfu_full_eq by simp
  then show ?thesis
    unfolding example_lfu_full_def by (rule reachable_projr[OF examples_constructed(3)])
qed

lemma example_lru_full_run:
  "\<not> isl (run [Put 1 (PyVal 10) 1 0, Put 2 (PyVal 20) 1 1, Get 1 2] example_lru)"
  by (simp add: example_lru_def eval_defs)

lemma example_lru_full_reachable: "reachable example_lru_full"
  unfolding example_lru_full_def
  by (rule reachable_projr[OF examples_constructed(2) example_lru_full_run])

lemma example_lru_full_facts:
  "variant example_lru_full = LRU (the_lru (variant example_lru_full))"
  "contains 1 example_lru_full" "\<not> contains 3 example_lru_full" "is_full example_lru_full"
  "peek_lru (the_lru (variant example_lru_full)) = Inr (Some 2)"
  "peek_mru (the_lru (variant example_lru_full)) = Inr (Some 1)"
  by (simp_all add: example_lru_full_def example_lru_def eval_defs the_lru_def peek_lru_def
        peek_mru_def)

lemma example_lfu_full_value:
  "example_lfu_full =
     \<lparr>capacity = 2, name = ''LFUCache'',
          cache = [(1, \<lparr>key = 1, val = PyVal 10, timestamp = 2, access_count = 2, entry_size = 1\<rparr>),
                   (2, \<lparr>key = 2, val = PyVal 20, timestamp = 1, access_count = 1, entry_size = 1\<rparr>)],
          stats = \<lparr>hits = 1, misses = 0, evictions = 0, current_size_stat = 2, max_size = 2\<rparr>,
          variant = LFU \<lparr>freq_map = [(1, [2]), (2, [1])], freq_key = [(1, 2), (2, 1)],
                         min_freq = 1\<rparr>\<rparr>"
  unfolding example_lfu_full_def by (simp only: example_lfu_full_eq sum.sel)

lemma example_fifo_one_value:
  "example_fifo_one =
     \<lparr>capacity = 1, name = ''FIFO'',
      cache = [(1, \<lparr>key = 1, val = PyVal 10, timestamp = 0, access_count = 1, entry_size = 1\<rparr>)],
      stats = \<lparr>hits = 0, misses = 0, evictions = 0, current_size_stat = 1, max_size = 1\<rparr>,
      variant = FIFO \<lparr>insertion_queue = [1]\<rparr>\<rparr>"
  by (simp add: example_fifo_one_def example_fifo_def eval_defs)

lemma example_fifo_one_reachable: "reachable example_fifo_one"
proof -
  have "\<not> isl (run [Put 1 (PyVal 10) 1 0] example_fifo)"
    by (simp add: example_fifo_def eval_defs)
  then show ?thesis
    unfolding example_fifo_one_def by (rule reachable_projr[OF examples_constructed(1)])
qed

lemma example_lfu3_constructed: "constructed example_lfu3"
proof -
  have "LFUCache 3 ''LFUCache'' = Inr example_lfu3"
    by (simp add: LFUCache_def init_policy_def example_lfu3_def)
  then show ?thesis unfolding constructed_def by blast
qed

lemma example_lfu_mixed9_eq:
  "run mixed_ops example_lfu3 =
     Inr \<lparr>capacity = 3, name = ''LFUCache'',
          cache = [(1, \<lparr>key = 1, val = PyVal 10, timestamp = 7, access_count = 4, entry_size = 1\<rparr>),
                   (2, \<lparr>key = 2, val = PyVal 2, timestamp = 5, access_count = 2, entry_size = 1\<rparr>),
                   (4, \<lparr>key = 4, val = PyVal 4, timestamp = 6, access_count = 1, entry_size = 1\<rparr>)],
          stats = \<lparr>hits = 3, misses = 0, evictions = 0, current_size_stat = 3, max_size = 3\<rparr>,
          variant = LFU \<lparr>freq_map = [(2, [2]), (1, [4]), (4, [1])],
                         freq_key = [(1, 4), (2, 2), (4, 1)], min_freq = 1\<rparr>\<rparr>"
  by (simp add: mixed_ops_def example_lfu3_def eval_defs)

lemma example_lfu_mixed_eq:
  "run (mixed_ops @ [Get 4 8]) example_lfu3 =
     Inr \<lparr>capacity = 3, name = ''LFUCache'',
          cache = [(1, \<lparr>key = 1, val = PyVal 10, timestamp = 7, access_count = 4, entry_size = 1\<rparr>),
                   (2, \<lparr>key = 2, val = PyVal 2, timestamp = 5, access_count = 2, entry_size = 1\<rparr>),
                   (4, \<lparr>key = 4, val = PyVal 4, timestamp = 8, access_count = 2, entry_size = 1\<rparr>)],
          stats = \<lparr>hits = 4, misses = 0, evictions = 0, current_size_stat = 3, max_size = 3\<rparr>,
          variant = LFU \<lparr>freq_map = [(2, [2, 4]), (4, [1])],
                         freq_key = [(1, 4), (2, 2), (4, 2)], min_freq = 2\<rparr>\<rparr>"
  by (simp add: mixed_ops_def example_lfu3_def eval_defs)

lemma example_lfu_mixed9_value:
  "example_lfu_mixed9 =
     \<lparr>capacity = 3, name = ''LFUCache'',
          cache = [(1, \<lparr>key = 1, val = PyVal 10, timestamp = 7, access_count = 4, entry_size = 1\<rparr>),
                   (2, \<lparr>key = 2, val = PyVal 2, timestamp = 5, access_count = 2, entry_size = 1\<rparr>),
                   (4, \<lparr>key = 4, val = PyVal 4, timestamp = 6, access_count = 1, entry_size = 1\<rparr>)],
          stats = \<lparr>hits = 3, misses = 0, evictions = 0, current_size_stat = 3, max_size = 3\<rparr>,
          variant = LFU \<lparr>freq_map = [(2, [2]), (1, [4]), (4, [1])],
                         freq_key = [(1, 4), (2, 2), (4, 1)], min_freq = 1\<rparr>\<rparr>"
  unfolding example_lfu_mixed9_def by (simp only: example_lfu_mixed9_eq sum.sel)

lemma example_lfu_mixed_value:
  "example_lfu_mixed =
     \<lparr>capacity = 3, name = ''LFUCache'',
          cache = [(1, \<lparr>key = 1, val = PyVal 10, timestamp = 7, access_count = 4, entry_size = 1\<rparr>),
                   (2, \<lparr>key = 2, val = PyVal 2, timestamp = 5, access_count = 2, entry_size = 1\<rparr>),
                   (4, \<lparr>key = 4, val = PyVal 4, timestamp = 8, access_count = 2, entry_size = 1\<rparr>)],
          stats = \<lparr>hits = 4, misses = 0, evictions = 0, current_size_stat = 3, max_size = 3\<rparr>,
          variant = LFU \<lparr>freq_map = [(2, [2, 4]), (4, [1])],
                         freq_key = [(1, 4), (2, 2), (4, 2)], min_freq = 2\<rparr>\<rparr>"
  unfolding example_lfu_mixed_def by (simp only: example_lfu_mixed_eq sum.sel)

lemma example_lfu_mixed9_reachable: "reachable example_lfu_mixed9"
proof -
  have "\<not> isl (run mixed_ops example_lfu3)" unfolding example_lfu_mixed9_eq by simp
  then show ?thesis
    unfolding example_lfu_mixed9_def by (rule reachable_projr[OF example_lfu3_constructed])
qed

lemma example_lfu_mixed_reachable: "reachable example_lfu_mixed"
proof -
  have "\<not> isl (run (mixed_ops @ [Get 4 8]) example_lfu3)" unfolding example_lfu_mixed_eq by simp
  then show ?thesis
    unfolding example_lfu_mixed_def by (rule reachable_projr[OF example_lfu3_constructed])
qed

lemma example_h3_ok: "hierarchy_ok example_h3"
  using constructed_reachable[OF examples_constructed(1)] example_fifo_one_reachable
  by (simp add: hierarchy_ok_def example_h3_def example_level_def)

lemma example_h1_ok: "hierarchy_ok example_h1"
  using constructed_reachable[OF examples_constructed(1)]
  by (simp add: hierarchy_ok_def example_h1_def example_level_def)

lemma example_h3_stored:
  "stored 1 (lcache (levels example_h3 ! 0)) = PyNone"
  "stored 1 (lcache (levels example_h3 ! 1)) = PyNone"
  "stored 1 (lcache (levels example_h3 ! 2)) = PyVal 10"
  "length (levels example_h3) = 3"
  "\<forall>l \<in> set (levels example_h3). stored 9 (lcache l) = PyNone"
  by (simp_all add: example_h3_def example_level_def example_fifo_def example_fifo_one_value
        stored_def)

lemmas hierarchy_eval_defs =
  hput_def hget_def promote_to_upper_levels_def example_level_def new_level_stats_def at_time_def
  new_hierarchy_def

section \<open>The claims\<close>

subsection \<open>Claim C1\<close>

text \<open>
  C1. From any constructed policy, every sequence of public operations runs without raising
  and ends in a state whose size is at most the capacity. In such a state every \<open>put\<close>
  returns, leaves its key in the cache and keeps the size within the capacity. A \<open>put\<close> of
  a present key is the update: no eviction, same keys, same size. A \<open>put\<close> of a new key
  below capacity is the insertion alone: no eviction, one more entry. A \<open>put\<close> of a new key
  into a full cache is one call of the eviction hook, which removes exactly one cached key
  \<open>x\<close> and counts one eviction, followed by the insertion: afterwards the cache holds the new
  key and the old keys other than \<open>x\<close>, and its size is again the capacity.
\<close>

theorem C1_capacity_bound:
  assumes "constructed p0"
  shows "\<exists>p. run ops p0 = Inr p \<and> capacity p = capacity p0 \<and> 0 < capacity p0 \<and>
           int (current_size p) \<le> capacity p0 \<and>
           current_size_stat (stats p) = current_size p \<and>
           (\<forall>k v sz now. \<exists>p2. put k v sz now p = Inr p2 \<and> contains k p2 \<and>
              capacity p2 = capacity p0 \<and> int (current_size p2) \<le> capacity p0) \<and>
           (\<forall>k v sz now. contains k p \<longrightarrow>
              (\<exists>p2. put k v sz now p = update_entry k v sz now p \<and>
                 put k v sz now p = Inr p2 \<and> current_size p2 = current_size p \<and>
                 evictions (stats p2) = evictions (stats p) \<and>
                 (\<forall>k'. contains k' p2 = contains k' p))) \<and>
           (\<forall>k v sz now. \<not> contains k p \<and> int (current_size p) < capacity p \<longrightarrow>
              (\<exists>p2. put k v sz now p = insert_entry k v sz now p \<and>
                 put k v sz now p = Inr p2 \<and> current_size p2 = current_size p + 1 \<and>
                 evictions (stats p2) = evictions (stats p) \<and>
                 (\<forall>k'. contains k' p2 = (k' = k \<or> contains k' p)))) \<and>
           (\<forall>k v sz now. \<not> contains k p \<and> int (current_size p) = capacity p \<longrightarrow>
              (\<exists>x p1 p2. contains x p \<and> evict p = Inr p1 \<and>
                 cache p1 = AList.delete x (cache p) \<and>
                 Suc (current_size p1) = current_size p \<and>
                 evictions (stats p1) = evictions (stats p) + 1 \<and>
                 put k v sz now p = insert_entry k v sz now p1 \<and>
                 put k v sz now p = Inr p2 \<and> contains k p2 \<and>
                 current_size p2 = current_size p \<and>
                 evictions (stats p2) = evictions (stats p) + 1 \<and>
                 (\<forall>k'. contains k' p2 = (k' = k \<or> (k' \<noteq> x \<and> contains k' p)))))"
proof -
  from run_ok[OF constructed_pinv[OF assms], of ops] obtain p where
    r: "run ops p0 = Inr p" and inv: "pinv p" and cap: "capacity p = capacity p0" by blast
  from inv have b: "base_inv p" by (simp add: pinv_def)
  have total: "\<exists>p2. put k v sz now p = Inr p2 \<and> contains k p2 \<and>
              capacity p2 = capacity p0 \<and> int (current_size p2) \<le> capacity p0" for k v sz now
  proof -
    from put_total[OF inv, of k v sz now] obtain p2 where
      pr: "put k v sz now p = Inr p2" and i2: "pinv p2" and c: "contains k p2" and
      c2: "capacity p2 = capacity p" by blast
    from i2 c2 cap have "int (current_size p2) \<le> capacity p0"
      by (simp add: pinv_def base_inv_def current_size_def)
    with pr c c2 cap show ?thesis by simp
  qed
  have upd: "\<exists>p2. put k v sz now p = update_entry k v sz now p \<and>
                 put k v sz now p = Inr p2 \<and> current_size p2 = current_size p \<and>
                 evictions (stats p2) = evictions (stats p) \<and>
                 (\<forall>k'. contains k' p2 = contains k' p)"
    if "contains k p" for k v sz now
  proof -
    from that obtain e where e: "map_of (cache p) k = Some e" by (auto simp: contains_def)
    from put_update[OF inv e, of v sz now] obtain v' p' where
      pr: "put k v sz now p = Inr p'" and
      p': "p' = p\<lparr>cache := accessed k now (variant p)
                             (AList.update k (e\<lparr>val := v, entry_size := sz\<rparr>) (cache p)),
                  variant := v'\<rparr>" by blast
    from e have pe: "put k v sz now p = update_entry k v sz now p" by (simp add: put_def)
    have sz: "current_size p' = current_size p"
      using e by (simp add: p' current_size_def length_update_old)
    have ev: "evictions (stats p') = evictions (stats p)" by (simp add: p')
    from e have "insert k (dom (map_of (cache p))) = dom (map_of (cache p))" by auto
    then have same: "\<forall>k'. contains k' p' = contains k' p" by (simp add: p' contains_dom)
    from pe pr sz ev same show ?thesis by blast
  qed
  have room: "\<exists>p2. put k v sz now p = insert_entry k v sz now p \<and>
                 put k v sz now p = Inr p2 \<and> current_size p2 = current_size p + 1 \<and>
                 evictions (stats p2) = evictions (stats p) \<and>
                 (\<forall>k'. contains k' p2 = (k' = k \<or> contains k' p))"
    if "\<not> contains k p \<and> int (current_size p) < capacity p" for k v sz now
  proof -
    from that have k: "map_of (cache p) k = None" and nf: "\<not> is_full p"
      by (simp_all add: contains_def is_full_def)
    from put_new_room[OF inv k nf, of v sz now] obtain v' p' where
      pr: "put k v sz now p = Inr p'" and
      p': "p' = p\<lparr>cache := cache p @ [(k, new_entry k v sz now)],
                  stats := (stats p)\<lparr>current_size_stat := Suc (length (cache p))\<rparr>,
                  variant := v'\<rparr>" by blast
    from k nf have pe: "put k v sz now p = insert_entry k v sz now p" by (simp add: put_def)
    have sz: "current_size p' = current_size p + 1" by (simp add: p' current_size_def)
    have ev: "evictions (stats p') = evictions (stats p)" by (simp add: p')
    have same: "\<forall>k'. contains k' p' = (k' = k \<or> contains k' p)"
      by (auto simp: p' contains_dom)
    from pe pr sz ev same show ?thesis by blast
  qed
  have full: "\<exists>x p1 p2. contains x p \<and> evict p = Inr p1 \<and>
                 cache p1 = AList.delete x (cache p) \<and>
                 Suc (current_size p1) = current_size p \<and>
                 evictions (stats p1) = evictions (stats p) + 1 \<and>
                 put k v sz now p = insert_entry k v sz now p1 \<and>
                 put k v sz now p = Inr p2 \<and> contains k p2 \<and>
                 current_size p2 = current_size p \<and>
                 evictions (stats p2) = evictions (stats p) + 1 \<and>
                 (\<forall>k'. contains k' p2 = (k' = k \<or> (k' \<noteq> x \<and> contains k' p)))"
    if "\<not> contains k p \<and> int (current_size p) = capacity p" for k v sz now
  proof -
    from that have k: "map_of (cache p) k = None" and f: "is_full p"
      by (simp_all add: contains_def is_full_def)
    from put_new_full[OF inv k f, of v sz now] obtain x v1 p1 v' p' where
      x: "x \<in> dom (map_of (cache p))" and
      ev: "evict p = Inr p1" and
      p1: "p1 = count_eviction (p\<lparr>cache := AList.delete x (cache p), variant := v1\<rparr>)" and
      l1: "Suc (length (cache p1)) = length (cache p)" and
      pe: "put k v sz now p = insert_entry k v sz now p1" and
      pr: "put k v sz now p = Inr p'" and
      p': "p' = p1\<lparr>cache := cache p1 @ [(k, new_entry k v sz now)],
                   stats := (stats p1)\<lparr>current_size_stat := Suc (length (cache p1))\<rparr>,
                   variant := v'\<rparr>" by blast
    from x have cx: "contains x p" by (simp add: contains_dom)
    have c1: "cache p1 = AList.delete x (cache p)" by (simp add: p1 count_eviction_def)
    have e1: "evictions (stats p1) = evictions (stats p) + 1" by (simp add: p1 count_eviction_def)
    have ck: "contains k p'" by (simp add: p' contains_def)
    have s2: "current_size p' = current_size p" using l1 by (simp add: p' current_size_def)
    have e2: "evictions (stats p') = evictions (stats p) + 1"
      by (simp add: p' p1 count_eviction_def)
    have s1: "Suc (current_size p1) = current_size p" using l1 by (simp add: current_size_def)
    have same: "\<forall>k'. contains k' p' = (k' = k \<or> (k' \<noteq> x \<and> contains k' p))"
      by (auto simp: p' c1 contains_dom)
    show ?thesis
      by (rule exI[of _ x], rule exI[of _ p1], rule exI[of _ p'])
         (intro conjI cx ev c1 s1 e1 pe pr ck s2 e2 same)
  qed
  from b cap have c0: "0 < capacity p0" and le: "int (current_size p) \<le> capacity p0" and
    cs: "current_size_stat (stats p) = current_size p"
    by (simp_all add: base_inv_def current_size_def)
  show ?thesis
  proof (rule exI[of _ p], intro conjI allI impI)
    show "run ops p0 = Inr p" by (rule r)
    show "capacity p = capacity p0" by (rule cap)
    show "0 < capacity p0" by (rule c0)
    show "int (current_size p) \<le> capacity p0" by (rule le)
    show "current_size_stat (stats p) = current_size p" by (rule cs)
  next
    fix k v sz now
    show "\<exists>p2. put k v sz now p = Inr p2 \<and> contains k p2 \<and>
              capacity p2 = capacity p0 \<and> int (current_size p2) \<le> capacity p0"
      by (rule total)
  next
    fix k v sz now assume "contains k p"
    then show "\<exists>p2. put k v sz now p = update_entry k v sz now p \<and>
                 put k v sz now p = Inr p2 \<and> current_size p2 = current_size p \<and>
                 evictions (stats p2) = evictions (stats p) \<and>
                 (\<forall>k'. contains k' p2 = contains k' p)"
      by (rule upd)
  next
    fix k v sz now assume "\<not> contains k p \<and> int (current_size p) < capacity p"
    then show "\<exists>p2. put k v sz now p = insert_entry k v sz now p \<and>
                 put k v sz now p = Inr p2 \<and> current_size p2 = current_size p + 1 \<and>
                 evictions (stats p2) = evictions (stats p) \<and>
                 (\<forall>k'. contains k' p2 = (k' = k \<or> contains k' p))"
      by (rule room)
  next
    fix k v sz now assume "\<not> contains k p \<and> int (current_size p) = capacity p"
    then show "\<exists>x p1 p2. contains x p \<and> evict p = Inr p1 \<and>
                 cache p1 = AList.delete x (cache p) \<and>
                 Suc (current_size p1) = current_size p \<and>
                 evictions (stats p1) = evictions (stats p) + 1 \<and>
                 put k v sz now p = insert_entry k v sz now p1 \<and>
                 put k v sz now p = Inr p2 \<and> contains k p2 \<and>
                 current_size p2 = current_size p \<and>
                 evictions (stats p2) = evictions (stats p) + 1 \<and>
                 (\<forall>k'. contains k' p2 = (k' = k \<or> (k' \<noteq> x \<and> contains k' p)))"
      by (rule full)
  qed
qed

theorem C1_capacity_bound_witness:
  "constructed example_fifo \<and>
   run [Put 1 (PyVal 10) 1 0] example_fifo = Inr example_fifo_one \<and>
   capacity example_fifo_one = 1 \<and> int (current_size example_fifo_one) = 1 \<and>
   evictions (stats example_fifo_one) = 0 \<and>
   contains 1 example_fifo_one \<and> \<not> contains 2 example_fifo_one \<and>
   (\<exists>p1 p2. evict example_fifo_one = Inr p1 \<and>
      cache p1 = AList.delete 1 (cache example_fifo_one) \<and>
      current_size p1 = 0 \<and> evictions (stats p1) = 1 \<and>
      put 2 (PyVal 20) 1 1 example_fifo_one = insert_entry 2 (PyVal 20) 1 1 p1 \<and>
      put 2 (PyVal 20) 1 1 example_fifo_one = Inr p2 \<and>
      contains 2 p2 \<and> \<not> contains 1 p2 \<and> current_size p2 = 1 \<and> evictions (stats p2) = 1) \<and>
   (\<exists>p2. put 1 (PyVal 11) 1 1 example_fifo_one = Inr p2 \<and> contains 1 p2 \<and>
      current_size p2 = 1 \<and> evictions (stats p2) = 0) \<and>
   (\<exists>p. run [Put 1 (PyVal 10) 1 0, Put 2 (PyVal 20) 1 1, Get 1 2, Delete 2, Put 3 PyNone 1 3]
           example_fifo = Inr p \<and>
        int (current_size p) \<le> capacity example_fifo)"
proof -
  note c = examples_constructed(1)
  from C1_capacity_bound[OF c, of "[Put 1 (PyVal 10) 1 0]"] obtain p where
    r: "run [Put 1 (PyVal 10) 1 0] example_fifo = Inr p" and
    upd: "\<forall>k v sz now. contains k p \<longrightarrow>
              (\<exists>p2. put k v sz now p = update_entry k v sz now p \<and>
                 put k v sz now p = Inr p2 \<and> current_size p2 = current_size p \<and>
                 evictions (stats p2) = evictions (stats p) \<and>
                 (\<forall>k'. contains k' p2 = contains k' p))" and
    full: "\<forall>k v sz now. \<not> contains k p \<and> int (current_size p) = capacity p \<longrightarrow>
              (\<exists>x p1 p2. contains x p \<and> evict p = Inr p1 \<and>
                 cache p1 = AList.delete x (cache p) \<and>
                 Suc (current_size p1) = current_size p \<and>
                 evictions (stats p1) = evictions (stats p) + 1 \<and>
                 put k v sz now p = insert_entry k v sz now p1 \<and>
                 put k v sz now p = Inr p2 \<and> contains k p2 \<and>
                 current_size p2 = current_size p \<and>
                 evictions (stats p2) = evictions (stats p) + 1 \<and>
                 (\<forall>k'. contains k' p2 = (k' = k \<or> (k' \<noteq> x \<and> contains k' p))))"
    by (elim exE conjE) (rule that; assumption)
  from r have pe: "p = example_fifo_one" by (simp add: example_fifo_one_def)
  from r have r1: "run [Put 1 (PyVal 10) 1 0] example_fifo = Inr example_fifo_one"
    unfolding pe .
  have h: "capacity example_fifo_one = 1" "int (current_size example_fifo_one) = 1"
    "evictions (stats example_fifo_one) = 0"
    "contains 1 example_fifo_one" "\<not> contains 2 example_fifo_one"
    by (simp_all add: example_fifo_one_value contains_def current_size_def)
  have only: "contains x example_fifo_one \<Longrightarrow> x = 1" for x
    by (simp add: example_fifo_one_value contains_def split: if_splits)
  have pre: "\<not> contains 2 example_fifo_one \<and>
      int (current_size example_fifo_one) = capacity example_fifo_one"
    using h by simp
  from full[unfolded pe, THEN spec, THEN spec, THEN spec, THEN spec, THEN mp, OF pre,
      of "PyVal 20" 1 1]
  obtain x p1 p2 where
    cx: "contains x example_fifo_one" and ev: "evict example_fifo_one = Inr p1" and
    c1: "cache p1 = AList.delete x (cache example_fifo_one)" and
    s1: "Suc (current_size p1) = current_size example_fifo_one" and
    e1: "evictions (stats p1) = evictions (stats example_fifo_one) + 1" and
    pi: "put 2 (PyVal 20) 1 1 example_fifo_one = insert_entry 2 (PyVal 20) 1 1 p1" and
    pr: "put 2 (PyVal 20) 1 1 example_fifo_one = Inr p2" and ck: "contains 2 p2" and
    s2: "current_size p2 = current_size example_fifo_one" and
    e2: "evictions (stats p2) = evictions (stats example_fifo_one) + 1" and
    same: "\<forall>k'. contains k' p2 = (k' = 2 \<or> (k' \<noteq> x \<and> contains k' example_fifo_one))"
    by blast
  from only[OF cx] have x1: "x = 1" .
  from c1 have c1': "cache p1 = AList.delete 1 (cache example_fifo_one)" unfolding x1 .
  from s1 h have s1': "current_size p1 = 0" by simp
  from e1 h have e1': "evictions (stats p1) = 1" by simp
  from s2 h have s2': "current_size p2 = 1" by simp
  from e2 h have e2': "evictions (stats p2) = 1" by simp
  from same[THEN spec, of 1] have n1: "\<not> contains 1 p2" unfolding x1 by simp
  have E: "\<exists>p1 p2. evict example_fifo_one = Inr p1 \<and>
      cache p1 = AList.delete 1 (cache example_fifo_one) \<and>
      current_size p1 = 0 \<and> evictions (stats p1) = 1 \<and>
      put 2 (PyVal 20) 1 1 example_fifo_one = insert_entry 2 (PyVal 20) 1 1 p1 \<and>
      put 2 (PyVal 20) 1 1 example_fifo_one = Inr p2 \<and>
      contains 2 p2 \<and> \<not> contains 1 p2 \<and> current_size p2 = 1 \<and> evictions (stats p2) = 1"
    by (rule exI[of _ p1], rule exI[of _ p2])
       (intro conjI ev c1' s1' e1' pi pr ck n1 s2' e2')
  from upd[unfolded pe, THEN spec, THEN spec, THEN spec, THEN spec, THEN mp, OF h(4),
      of "PyVal 11" 1 1]
  obtain q where
    qr: "put 1 (PyVal 11) 1 1 example_fifo_one = Inr q" and
    qs: "current_size q = current_size example_fifo_one" and
    qe: "evictions (stats q) = evictions (stats example_fifo_one)" and
    qc: "\<forall>k'. contains k' q = contains k' example_fifo_one" by blast
  from qs h have qs': "current_size q = 1" by simp
  from qe h have qe': "evictions (stats q) = 0" by simp
  from qc h have qc': "contains 1 q" by simp
  have U: "\<exists>p2. put 1 (PyVal 11) 1 1 example_fifo_one = Inr p2 \<and> contains 1 p2 \<and>
      current_size p2 = 1 \<and> evictions (stats p2) = 0"
    by (rule exI[of _ q]) (intro conjI qr qc' qs' qe')
  from C1_capacity_bound[OF c,
      of "[Put 1 (PyVal 10) 1 0, Put 2 (PyVal 20) 1 1, Get 1 2, Delete 2, Put 3 PyNone 1 3]"]
  obtain p5 where
    r5: "run [Put 1 (PyVal 10) 1 0, Put 2 (PyVal 20) 1 1, Get 1 2, Delete 2, Put 3 PyNone 1 3]
           example_fifo = Inr p5" and
    s5: "int (current_size p5) \<le> capacity example_fifo"
    by (elim exE conjE) (rule that; assumption)
  have R: "\<exists>p. run [Put 1 (PyVal 10) 1 0, Put 2 (PyVal 20) 1 1, Get 1 2, Delete 2, Put 3 PyNone 1 3]
           example_fifo = Inr p \<and>
        int (current_size p) \<le> capacity example_fifo"
    by (rule exI[of _ p5]) (intro conjI r5 s5)
  show ?thesis by (intro conjI c r1 h E U R)
qed

subsection \<open>Claim C2\<close>

text \<open>
  C2 (as amended). When the first level whose policy returns a value other than \<open>None\<close>
  for the key is level \<open>i\<close>, the hierarchy's \<open>get\<close> returns that value; afterwards every
  level \<open>j < i\<close> contains the key with that value and its promotion counter is one higher,
  the promotion counters of the levels from \<open>i\<close> on are unchanged, and the global promotion
  counter is higher by \<open>i\<close>, one for each level promoted to. For \<open>i = 0\<close> nothing is promoted.
\<close>

theorem C2_promotion:
  assumes "hierarchy_ok h" and "i < length (levels h)"
    and "\<forall>j < i. stored k (lcache (levels h ! j)) = PyNone"
    and "stored k (lcache (levels h ! i)) = v" and "v \<noteq> PyNone"
  shows "\<exists>h'. hget k tg tp h = Inr (v, h') \<and> length (levels h') = length (levels h) \<and>
           (\<forall>j < i. contains k (lcache (levels h' ! j)) \<and> stored k (lcache (levels h' ! j)) = v \<and>
                    promotions (lstats (levels h' ! j)) = promotions (lstats (levels h ! j)) + 1) \<and>
           (\<forall>j. i \<le> j \<and> j < length (levels h) \<longrightarrow>
                    promotions (lstats (levels h' ! j)) = promotions (lstats (levels h ! j))) \<and>
           total_promotions h' = total_promotions h + i"
  using hget_hit[OF assms, of tg tp] by blast

theorem C2_promotion_witness:
  "hierarchy_ok example_h3 \<and> (2::nat) < length (levels example_h3) \<and>
   stored 1 (lcache (levels example_h3 ! 0)) = PyNone \<and>
   stored 1 (lcache (levels example_h3 ! 1)) = PyNone \<and>
   stored 1 (lcache (levels example_h3 ! 2)) = PyVal 10 \<and>
   (\<exists>h'. hget 1 (at_time 5) (at_time 6) example_h3 = Inr (PyVal 10, h') \<and>
      contains 1 (lcache (levels h' ! 0)) \<and> contains 1 (lcache (levels h' ! 1)) \<and>
      promotions (lstats (levels h' ! 0)) = 1 \<and> promotions (lstats (levels h' ! 1)) = 1 \<and>
      promotions (lstats (levels h' ! 2)) = 0 \<and> total_promotions h' = 2)"
proof -
  note s = example_h3_stored
  have b: "\<forall>j < 2. stored 1 (lcache (levels example_h3 ! j)) = PyNone"
    using s by (simp add: less_Suc_eq numeral_2_eq_2)
  have l: "(2::nat) < length (levels example_h3)" using s by simp
  have p0: "promotions (lstats (levels example_h3 ! 0)) = 0"
    "promotions (lstats (levels example_h3 ! 1)) = 0"
    "promotions (lstats (levels example_h3 ! 2)) = 0" "total_promotions example_h3 = 0"
    by (simp_all add: example_h3_def example_level_def new_level_stats_def)
  from C2_promotion[OF example_h3_ok l b s(3), of "at_time 5" "at_time 6"] obtain h' where
    g: "hget 1 (at_time 5) (at_time 6) example_h3 = Inr (PyVal 10, h')" and
    lo: "\<forall>j < 2. contains 1 (lcache (levels h' ! j)) \<and> stored 1 (lcache (levels h' ! j)) = PyVal 10 \<and>
          promotions (lstats (levels h' ! j)) = promotions (lstats (levels example_h3 ! j)) + 1" and
    hi: "\<forall>j. 2 \<le> j \<and> j < length (levels example_h3) \<longrightarrow>
          promotions (lstats (levels h' ! j)) = promotions (lstats (levels example_h3 ! j))" and
    t: "total_promotions h' = total_promotions example_h3 + 2" by auto
  from lo p0 have "contains 1 (lcache (levels h' ! 0))" "contains 1 (lcache (levels h' ! 1))"
    "promotions (lstats (levels h' ! 0)) = 1" "promotions (lstats (levels h' ! 1)) = 1"
    by simp_all
  moreover from hi l p0 have "promotions (lstats (levels h' ! 2)) = 0" by simp
  moreover from t p0 have "total_promotions h' = 2" by simp
  ultimately have "\<exists>h'. hget 1 (at_time 5) (at_time 6) example_h3 = Inr (PyVal 10, h') \<and>
      contains 1 (lcache (levels h' ! 0)) \<and> contains 1 (lcache (levels h' ! 1)) \<and>
      promotions (lstats (levels h' ! 0)) = 1 \<and> promotions (lstats (levels h' ! 1)) = 1 \<and>
      promotions (lstats (levels h' ! 2)) = 0 \<and> total_promotions h' = 2"
    using g by blast
  with example_h3_ok l s show ?thesis by blast
qed

text \<open>
  The claim as stated fails for a hit below level 1: with three levels and the key only in
  the third, the global promotion counter goes from 0 to 2, not to 1.
\<close>

theorem C2_global_counter_counterexample:
  "\<not> isl (hget 1 (at_time 5) (at_time 6) example_h3) \<and>
   fst (projr (hget 1 (at_time 5) (at_time 6) example_h3)) = PyVal 10 \<and>
   total_promotions example_h3 = 0 \<and>
   total_promotions (snd (projr (hget 1 (at_time 5) (at_time 6) example_h3))) = 2"
  by (simp add: example_h3_def example_fifo_def example_fifo_one_value hput_def hget_def
        promote_to_upper_levels_def example_level_def new_level_stats_def at_time_def
        eval_defs upt_rec numeral_2_eq_2)

subsection \<open>Claim C3\<close>

text \<open>
  C3. \<open>put\<close> on a hierarchy without levels raises the configuration error (and, raising
  before anything is written, changes nothing). Otherwise it calls \<open>put\<close> on the policy of
  every level, level \<open>j\<close> being the \<open>j\<close>-th call, changes nothing else, and afterwards the
  \<open>get\<close> of every level returns the value written, whether or not a level had to evict.
\<close>

theorem C3_write_through:
  "(levels h = [] \<longrightarrow> hput k v tp h = Inl RuntimeError) \<and>
   (hierarchy_ok h \<and> levels h \<noteq> [] \<longrightarrow>
      (\<exists>ls'. hput k v tp h = Inr (h\<lparr>levels := ls'\<rparr>) \<and> length ls' = length (levels h) \<and>
         (\<forall>j < length (levels h).
            put k v 1 (tp j) (lcache (levels h ! j)) = Inr (lcache (ls' ! j)) \<and>
            ls' ! j = (levels h ! j)\<lparr>lcache := lcache (ls' ! j)\<rparr> \<and>
            (\<forall>now. \<exists>c. get k now (lcache (ls' ! j)) = Inr (v, c)))))"
proof (intro conjI impI)
  assume "levels h = []"
  then show "hput k v tp h = Inl RuntimeError" by (simp add: hput_def)
next
  assume a: "hierarchy_ok h \<and> levels h \<noteq> []"
  then have ok: "hierarchy_ok h" and ne: "levels h \<noteq> []" by simp_all
  from hput_ok[OF ok ne, of k v tp] obtain ls' where
    r: "hput k v tp h = Inr (h\<lparr>levels := ls'\<rparr>)" and w: "list_all2 (written k v) (levels h) ls'" and
    p: "\<forall>j < length (levels h). put k v 1 (tp j) (lcache (levels h ! j)) = Inr (lcache (ls' ! j))"
    by blast
  from w have len: "length ls' = length (levels h)" by (simp add: list_all2_lengthD)
  have "\<forall>j < length (levels h).
            put k v 1 (tp j) (lcache (levels h ! j)) = Inr (lcache (ls' ! j)) \<and>
            ls' ! j = (levels h ! j)\<lparr>lcache := lcache (ls' ! j)\<rparr> \<and>
            (\<forall>now. \<exists>c. get k now (lcache (ls' ! j)) = Inr (v, c))"
  proof (intro allI impI)
    fix j assume j: "j < length (levels h)"
    with w have wj: "written k v (levels h ! j) (ls' ! j)" by (simp add: list_all2_nthD)
    then have rj: "reachable (lcache (ls' ! j))" and sj: "stored k (lcache (ls' ! j)) = v"
      and ej: "ls' ! j = (levels h ! j)\<lparr>lcache := lcache (ls' ! j)\<rparr>"
      by (simp_all add: written_def)
    have "\<forall>now. \<exists>c. get k now (lcache (ls' ! j)) = Inr (v, c)"
    proof
      fix now
      from reachable_get_total[OF rj, of k now] sj
      show "\<exists>c. get k now (lcache (ls' ! j)) = Inr (v, c)" by auto
    qed
    with p j ej show "put k v 1 (tp j) (lcache (levels h ! j)) = Inr (lcache (ls' ! j)) \<and>
            ls' ! j = (levels h ! j)\<lparr>lcache := lcache (ls' ! j)\<rparr> \<and>
            (\<forall>now. \<exists>c. get k now (lcache (ls' ! j)) = Inr (v, c))" by blast
  qed
  with r len show "\<exists>ls'. hput k v tp h = Inr (h\<lparr>levels := ls'\<rparr>) \<and> length ls' = length (levels h) \<and>
         (\<forall>j < length (levels h).
            put k v 1 (tp j) (lcache (levels h ! j)) = Inr (lcache (ls' ! j)) \<and>
            ls' ! j = (levels h ! j)\<lparr>lcache := lcache (ls' ! j)\<rparr> \<and>
            (\<forall>now. \<exists>c. get k now (lcache (ls' ! j)) = Inr (v, c)))" by blast
qed

theorem C3_write_through_witness:
  "levels (new_hierarchy ''empty'' :: (nat, nat) CacheHierarchy) = [] \<and>
   hput 2 (PyVal 20) (at_time 7) (new_hierarchy ''empty'' :: (nat, nat) CacheHierarchy)
     = Inl RuntimeError \<and>
   hierarchy_ok example_h3 \<and> levels example_h3 \<noteq> [] \<and> is_full (lcache (levels example_h3 ! 2)) \<and>
   (\<exists>ls'. hput 2 (PyVal 20) (at_time 7) example_h3 = Inr (example_h3\<lparr>levels := ls'\<rparr>) \<and>
      length ls' = 3 \<and>
      (\<exists>c. get 2 8 (lcache (ls' ! 0)) = Inr (PyVal 20, c)) \<and>
      (\<exists>c. get 2 8 (lcache (ls' ! 2)) = Inr (PyVal 20, c)))"
proof -
  have e: "levels (new_hierarchy ''empty'' :: (nat, nat) CacheHierarchy) = []"
    by (simp add: new_hierarchy_def)
  have n: "levels example_h3 \<noteq> []" "length (levels example_h3) = 3"
    "is_full (lcache (levels example_h3 ! 2))"
    by (simp_all add: example_h3_def example_level_def example_fifo_one_value is_full_def
          current_size_def)
  from C3_write_through[of "new_hierarchy ''empty'' :: (nat, nat) CacheHierarchy" 2 "PyVal 20" "at_time 7"] e
  have r: "hput 2 (PyVal 20) (at_time 7) (new_hierarchy ''empty'' :: (nat, nat) CacheHierarchy)
     = Inl RuntimeError" by blast
  from C3_write_through[of example_h3 2 "PyVal 20" "at_time 7"] example_h3_ok n
  obtain ls' where
    "hput 2 (PyVal 20) (at_time 7) example_h3 = Inr (example_h3\<lparr>levels := ls'\<rparr>)"
    "length ls' = 3"
    "\<forall>j < 3. (\<forall>now. \<exists>c. get 2 now (lcache (ls' ! j)) = Inr (PyVal 20, c))" by auto
  then have "\<exists>ls'. hput 2 (PyVal 20) (at_time 7) example_h3 = Inr (example_h3\<lparr>levels := ls'\<rparr>) \<and>
      length ls' = 3 \<and>
      (\<exists>c. get 2 8 (lcache (ls' ! 0)) = Inr (PyVal 20, c)) \<and>
      (\<exists>c. get 2 8 (lcache (ls' ! 2)) = Inr (PyVal 20, c))" by auto
  with e r example_h3_ok n show ?thesis by blast
qed

subsection \<open>Claim C4\<close>

text \<open>
  C4 (as amended). On every policy instance, \<open>put(k, v)\<close> followed by \<open>get(k)\<close> returns
  \<open>v\<close>, adds one to the policy's \<open>hits\<close> and leaves its \<open>misses\<close> alone. On every hierarchy
  with at least one level the same holds for the global counters when \<open>v\<close> is not \<open>None\<close>;
  when \<open>v\<close> is \<open>None\<close> the \<open>get\<close> returns \<open>None\<close> and is counted as a global miss.
\<close>

theorem C4_round_trip:
  "(reachable p \<longrightarrow>
      (\<exists>p1 p2. put k v sz now p = Inr p1 \<and> get k now' p1 = Inr (v, p2) \<and>
         hits (stats p2) = hits (stats p1) + 1 \<and> misses (stats p2) = misses (stats p1))) \<and>
   (hierarchy_ok h \<and> levels h \<noteq> [] \<and> v \<noteq> PyNone \<longrightarrow>
      (\<exists>h1 h2. hput k v tp h = Inr h1 \<and> hget k tg tp' h1 = Inr (v, h2) \<and>
         total_hits h2 = total_hits h1 + 1 \<and> total_misses h2 = total_misses h1)) \<and>
   (hierarchy_ok h \<and> levels h \<noteq> [] \<and> v = PyNone \<longrightarrow>
      (\<exists>h1 h2. hput k v tp h = Inr h1 \<and> hget k tg tp' h1 = Inr (PyNone, h2) \<and>
         total_hits h2 = total_hits h1 \<and> total_misses h2 = total_misses h1 + 1))"
proof (intro conjI impI)
  assume r: "reachable p"
  from put_total[OF reachable_pinv[OF r], of k v sz now] obtain p1 where
    p1: "put k v sz now p = Inr p1" "pinv p1" "stored k p1 = v" "contains k p1" by blast
  from get_total[OF p1(2), of k now'] p1(3,4) obtain p2 where
    "get k now' p1 = Inr (v, p2)" "hits (stats p2) = hits (stats p1) + 1"
    "misses (stats p2) = misses (stats p1)" by auto
  with p1(1) show "\<exists>p1 p2. put k v sz now p = Inr p1 \<and> get k now' p1 = Inr (v, p2) \<and>
         hits (stats p2) = hits (stats p1) + 1 \<and> misses (stats p2) = misses (stats p1)"
    by blast
next
  assume a: "hierarchy_ok h \<and> levels h \<noteq> [] \<and> v \<noteq> PyNone"
  then have ok: "hierarchy_ok h" and ne: "levels h \<noteq> []" and v: "v \<noteq> PyNone" by simp_all
  from hput_ok[OF ok ne, of k v tp] obtain ls' where
    r: "hput k v tp h = Inr (h\<lparr>levels := ls'\<rparr>)" and w: "list_all2 (written k v) (levels h) ls'"
    by blast
  let ?h1 = "h\<lparr>levels := ls'\<rparr>"
  from w have len: "length ls' = length (levels h)" by (simp add: list_all2_lengthD)
  have wj: "\<And>j. j < length ls' \<Longrightarrow> written k v (levels h ! j) (ls' ! j)"
    using w len by (simp add: list_all2_nthD)
  have ok1: "hierarchy_ok ?h1"
    unfolding hierarchy_ok_def
  proof
    fix l assume "l \<in> set (levels ?h1)"
    then obtain j where "j < length ls'" "l = ls' ! j" by (auto simp: in_set_conv_nth)
    with wj[of j] show "reachable (lcache l)" by (simp add: written_def)
  qed
  from ne len have n0: "0 < length (levels ?h1)" by simp
  have at: "stored k (lcache (levels ?h1 ! 0)) = v" using wj[of 0] n0 by (simp add: written_def)
  have below: "\<forall>j < 0. stored k (lcache (levels ?h1 ! j)) = PyNone" by simp
  from hget_hit[OF ok1 n0 below at v, of tg tp'] r
  show "\<exists>h1 h2. hput k v tp h = Inr h1 \<and> hget k tg tp' h1 = Inr (v, h2) \<and>
         total_hits h2 = total_hits h1 + 1 \<and> total_misses h2 = total_misses h1" by blast
next
  assume a: "hierarchy_ok h \<and> levels h \<noteq> [] \<and> v = PyNone"
  then have ok: "hierarchy_ok h" and ne: "levels h \<noteq> []" and v: "v = PyNone" by simp_all
  from hput_ok[OF ok ne, of k v tp] obtain ls' where
    r: "hput k v tp h = Inr (h\<lparr>levels := ls'\<rparr>)" and w: "list_all2 (written k v) (levels h) ls'"
    by blast
  let ?h1 = "h\<lparr>levels := ls'\<rparr>"
  from w have len: "length ls' = length (levels h)" by (simp add: list_all2_lengthD)
  have wj: "\<And>j. j < length ls' \<Longrightarrow> written k v (levels h ! j) (ls' ! j)"
    using w len by (simp add: list_all2_nthD)
  have all: "\<forall>l \<in> set (levels ?h1). reachable (lcache l) \<and> stored k (lcache l) = PyNone"
  proof
    fix l assume "l \<in> set (levels ?h1)"
    then obtain j where "j < length ls'" "l = ls' ! j" by (auto simp: in_set_conv_nth)
    with wj[of j] v show "reachable (lcache l) \<and> stored k (lcache l) = PyNone"
      by (simp add: written_def)
  qed
  then have ok1: "hierarchy_ok ?h1" and miss: "\<forall>l \<in> set (levels ?h1). stored k (lcache l) = PyNone"
    by (simp_all add: hierarchy_ok_def)
  from hget_miss[OF ok1 miss, of tg tp'] obtain ls2 where
    "hget k tg tp' ?h1 = Inr (PyNone, ?h1\<lparr>levels := ls2, total_misses := total_misses ?h1 + 1\<rparr>)"
    by blast
  with r show "\<exists>h1 h2. hput k v tp h = Inr h1 \<and> hget k tg tp' h1 = Inr (PyNone, h2) \<and>
         total_hits h2 = total_hits h1 \<and> total_misses h2 = total_misses h1 + 1"
    by (intro exI[of _ ?h1] exI[of _ "?h1\<lparr>levels := ls2, total_misses := total_misses ?h1 + 1\<rparr>"]) simp
qed

theorem C4_round_trip_witness:
  "reachable example_lru_full \<and> hierarchy_ok example_h3 \<and> levels example_h3 \<noteq> [] \<and>
   (PyVal 20 :: nat py) \<noteq> PyNone \<and>
   (\<exists>p1 p2. put 5 PyNone 1 3 example_lru_full = Inr p1 \<and> get 5 4 p1 = Inr (PyNone, p2) \<and>
      hits (stats p2) = hits (stats p1) + 1 \<and> misses (stats p2) = misses (stats p1)) \<and>
   (\<exists>h1 h2. hput 2 (PyVal 20) (at_time 7) example_h3 = Inr h1 \<and>
      hget 2 (at_time 8) (at_time 9) h1 = Inr (PyVal 20, h2) \<and>
      total_hits h2 = total_hits h1 + 1 \<and> total_misses h2 = total_misses h1)"
proof -
  have n: "levels example_h3 \<noteq> []" by (simp add: example_h3_def)
  from C4_round_trip[of example_lru_full 5 PyNone 1 3 4] example_lru_full_reachable
  have a: "\<exists>p1 p2. put 5 PyNone 1 3 example_lru_full = Inr p1 \<and> get 5 4 p1 = Inr (PyNone, p2) \<and>
      hits (stats p2) = hits (stats p1) + 1 \<and> misses (stats p2) = misses (stats p1)" by blast
  from C4_round_trip[where h = example_h3 and k = 2 and v = "PyVal 20" and tp = "at_time 7"
      and tg = "at_time 8" and tp' = "at_time 9"] example_h3_ok n
  have b: "\<exists>h1 h2. hput 2 (PyVal 20) (at_time 7) example_h3 = Inr h1 \<and>
      hget 2 (at_time 8) (at_time 9) h1 = Inr (PyVal 20, h2) \<and>
      total_hits h2 = total_hits h1 + 1 \<and> total_misses h2 = total_misses h1" by simp
  show ?thesis by (intro conjI) (rule example_lru_full_reachable example_h3_ok n a b py.distinct)+
qed

text \<open>
  The claim as stated fails on a hierarchy for the value \<open>None\<close>: after \<open>put(1, None)\<close> the
  \<open>get(1)\<close> finds the entry in the level's policy (the policy counts a hit), but the
  hierarchy takes the returned \<open>None\<close> for "not found" and counts a level miss and a global
  miss; the global hit counter stays 0.
\<close>

theorem C4_none_counterexample:
  "hput 1 PyNone (at_time 0) example_h1 =
     Inr \<lparr>hname = ''MemoryHierarchy'',
          levels = [\<lparr>lcache =
                       \<lparr>capacity = 1, name = ''FIFO'',
                        cache = [(1, \<lparr>key = 1, val = PyNone, timestamp = 0, access_count = 1,
                                       entry_size = 1\<rparr>)],
                        stats = \<lparr>hits = 0, misses = 0, evictions = 0, current_size_stat = 1,
                                  max_size = 1\<rparr>,
                        variant = FIFO \<lparr>insertion_queue = [1]\<rparr>\<rparr>,
                     lname = ''L1'', latency_ms = 1,
                     lstats = \<lparr>ls_name = ''L1'', ls_hits = 0, ls_misses = 0, promotions = 0,
                                demotions = 0, ls_total_latency_ms = 0\<rparr>\<rparr>],
          total_hits = 0, total_misses = 0, total_promotions = 0, total_latency_ms = 0\<rparr> \<and>
   hget 1 (at_time 1) (at_time 2) (projr (hput 1 PyNone (at_time 0) example_h1)) =
     Inr (PyNone,
          \<lparr>hname = ''MemoryHierarchy'',
           levels = [\<lparr>lcache =
                        \<lparr>capacity = 1, name = ''FIFO'',
                         cache = [(1, \<lparr>key = 1, val = PyNone, timestamp = 0, access_count = 1,
                                        entry_size = 1\<rparr>)],
                         stats = \<lparr>hits = 1, misses = 0, evictions = 0, current_size_stat = 1,
                                   max_size = 1\<rparr>,
                         variant = FIFO \<lparr>insertion_queue = [1]\<rparr>\<rparr>,
                      lname = ''L1'', latency_ms = 1,
                      lstats = \<lparr>ls_name = ''L1'', ls_hits = 0, ls_misses = 1, promotions = 0,
                                 demotions = 0, ls_total_latency_ms = 1\<rparr>\<rparr>],
           total_hits = 0, total_misses = 1, total_promotions = 0, total_latency_ms = 0\<rparr>)"
  by (simp add: example_h1_def example_fifo_def hierarchy_eval_defs eval_defs)

subsection \<open>Claim C5\<close>

text \<open>
  C5. In a reachable LFU policy every bucket is a queue. A \<open>put\<close> of a new key leaves that
  key with frequency 1 at the back of bucket 1 and \<open>min_freq = 1\<close>; below capacity no other
  bucket and no other key's frequency changes. A \<open>get\<close> or an updating \<open>put\<close> of a present
  key of frequency \<open>f\<close> raises its frequency to \<open>f + 1\<close>: the key leaves bucket \<open>f\<close>, whose
  other keys keep their order, and goes to the back of bucket \<open>f + 1\<close>; every other bucket
  and every other key's frequency is unchanged. A \<open>delete\<close> takes the key out of its bucket
  and keeps the order of the others. When a new key is put into a full cache, the entry
  removed is the first key of the bucket at \<open>min_freq\<close>, whose frequency is the least among
  all cached keys, while every other key stays; that bucket loses its head, the new key goes
  to the back of bucket 1, and nothing else changes.
\<close>

theorem C5_lfu:
  assumes "reachable p" and "variant p = LFU s"
  shows "(\<not> contains k p \<longrightarrow>
            (\<exists>p' s' b. put k v sz now p = Inr p' \<and> variant p' = LFU s' \<and>
               get_key_frequency k s' = Some 1 \<and> min_freq s' = 1 \<and>
               dd_read 1 (freq_map s') = b @ [k])) \<and>
         (\<not> contains k p \<and> \<not> is_full p \<longrightarrow>
            (\<exists>p' s'. put k v sz now p = Inr p' \<and> variant p' = LFU s' \<and>
               (\<forall>g. dd_read g (freq_map s') =
                  (if g = 1 then dd_read g (freq_map s) @ [k] else dd_read g (freq_map s))) \<and>
               (\<forall>k'. k' \<noteq> k \<longrightarrow> get_key_frequency k' s' = get_key_frequency k' s))) \<and>
         (contains k p \<longrightarrow>
            (\<exists>f r p' s'. get_key_frequency k s = Some f \<and> get k now p = Inr (r, p') \<and>
               variant p' = LFU s' \<and> get_key_frequency k s' = Some (f + 1) \<and>
               (\<forall>g. dd_read g (freq_map s') =
                  (if g = f + 1 then dd_read g (freq_map s) @ [k]
                   else if g = f then remove1 k (dd_read g (freq_map s))
                   else dd_read g (freq_map s))) \<and>
               (\<forall>k'. k' \<noteq> k \<longrightarrow> get_key_frequency k' s' = get_key_frequency k' s) \<and>
               min_freq s' =
                 (if remove1 k (dd_read f (freq_map s)) = [] \<and> f = min_freq s then f + 1
                  else min_freq s)) \<and>
            (\<exists>f p' s'. get_key_frequency k s = Some f \<and> put k v sz now p = Inr p' \<and>
               variant p' = LFU s' \<and> get_key_frequency k s' = Some (f + 1) \<and>
               (\<forall>g. dd_read g (freq_map s') =
                  (if g = f + 1 then dd_read g (freq_map s) @ [k]
                   else if g = f then remove1 k (dd_read g (freq_map s))
                   else dd_read g (freq_map s))) \<and>
               (\<forall>k'. k' \<noteq> k \<longrightarrow> get_key_frequency k' s' = get_key_frequency k' s) \<and>
               min_freq s' =
                 (if remove1 k (dd_read f (freq_map s)) = [] \<and> f = min_freq s then f + 1
                  else min_freq s)) \<and>
            (\<exists>f p' s'. get_key_frequency k s = Some f \<and> delete k p = Inr (True, p') \<and>
               variant p' = LFU s' \<and> get_key_frequency k s' = None \<and>
               (\<forall>g. dd_read g (freq_map s') =
                  (if g = f then remove1 k (dd_read g (freq_map s))
                   else dd_read g (freq_map s))) \<and>
               (\<forall>k'. k' \<noteq> k \<longrightarrow> get_key_frequency k' s' = get_key_frequency k' s))) \<and>
         (\<not> contains k p \<and> is_full p \<longrightarrow>
            (\<exists>x rest p1 p' s'. min_freq s \<noteq> 0 \<and>
               dd_read (min_freq s) (freq_map s) = x # rest \<and>
               get_key_frequency x s = Some (min_freq s) \<and>
               (\<forall>k' f'. get_key_frequency k' s = Some f' \<longrightarrow> min_freq s \<le> f') \<and>
               contains x p \<and> evict p = Inr p1 \<and> cache p1 = AList.delete x (cache p) \<and>
               put k v sz now p = Inr p' \<and> \<not> contains x p' \<and>
               (\<forall>k'. k' \<noteq> x \<and> contains k' p \<longrightarrow> contains k' p') \<and>
               variant p' = LFU s' \<and>
               (\<forall>g. dd_read g (freq_map s') =
                  (if g = 1 then (if min_freq s = 1 then rest else dd_read 1 (freq_map s)) @ [k]
                   else if g = min_freq s then rest
                   else dd_read g (freq_map s))) \<and>
               get_key_frequency x s' = None \<and>
               (\<forall>k'. k' \<noteq> k \<and> k' \<noteq> x \<longrightarrow>
                  get_key_frequency k' s' = get_key_frequency k' s)))"
proof -
  let ?K = "dom (map_of (cache p))"
  from assms(1) have inv: "pinv p" by (rule reachable_pinv)
  with assms(2) have li: "lfu_inv ?K s" by (simp add: pinv_def variant_inv_def)
  then have st: "lfu_struct ?K s" by (simp add: lfu_inv_def)
  have room: "\<exists>p' s'. put k v sz now p = Inr p' \<and> variant p' = LFU s' \<and>
               (\<forall>g. dd_read g (freq_map s') =
                  (if g = 1 then dd_read g (freq_map s) @ [k] else dd_read g (freq_map s))) \<and>
               (\<forall>k'. k' \<noteq> k \<longrightarrow> get_key_frequency k' s' = get_key_frequency k' s) \<and>
               get_key_frequency k s' = Some 1 \<and> min_freq s' = 1"
    if nc: "\<not> contains k p" and nf: "\<not> is_full p"
  proof -
    from nc have k: "map_of (cache p) k = None" by (simp add: contains_def)
    then have kn: "k \<notin> ?K" by auto
    from lfu_insert_variant[OF assms(2), of k v sz now] obtain p' where
      ie: "insert_entry k v sz now p = Inr p'" and vp: "variant p' = LFU (lfu_on_insert k s)"
      by blast
    from ie k nf have pr: "put k v sz now p = Inr p'" by (simp add: put_def)
    note b = lfu_on_insert_buckets[OF st kn]
    from b have b1: "\<forall>g. dd_read g (freq_map (lfu_on_insert k s)) =
                  (if g = 1 then dd_read g (freq_map s) @ [k] else dd_read g (freq_map s))"
      by simp
    from b have b2: "\<forall>k'. k' \<noteq> k \<longrightarrow>
        get_key_frequency k' (lfu_on_insert k s) = get_key_frequency k' s"
      by (simp add: get_key_frequency_def)
    from b have b3: "get_key_frequency k (lfu_on_insert k s) = Some 1"
      "min_freq (lfu_on_insert k s) = 1"
      by (simp_all add: get_key_frequency_def)
    show ?thesis
      by (rule exI[of _ p'], rule exI[of _ "lfu_on_insert k s"]) (intro conjI pr vp b1 b2 b3)
  qed
  have hit: "\<exists>f s'. get_key_frequency k s = Some f \<and> increment_frequency k s = Inr s' \<and>
               get_key_frequency k s' = Some (f + 1) \<and>
               (\<forall>g. dd_read g (freq_map s') =
                  (if g = f + 1 then dd_read g (freq_map s) @ [k]
                   else if g = f then remove1 k (dd_read g (freq_map s))
                   else dd_read g (freq_map s))) \<and>
               (\<forall>k'. k' \<noteq> k \<longrightarrow> get_key_frequency k' s' = get_key_frequency k' s) \<and>
               min_freq s' =
                 (if remove1 k (dd_read f (freq_map s)) = [] \<and> f = min_freq s then f + 1
                  else min_freq s)"
    if kin: "k \<in> ?K"
  proof -
    from increment_frequency_inv[OF li kin] obtain s' cf where
      r: "increment_frequency k s = Inr s'" and cf: "map_of (freq_key s) k = Some cf" by blast
    note b = increment_frequency_buckets[OF li kin r cf]
    from cf have a1: "get_key_frequency k s = Some cf" by (simp add: get_key_frequency_def)
    from b have a2: "get_key_frequency k s' = Some (cf + 1)" by (simp add: get_key_frequency_def)
    from b have a3: "\<forall>g. dd_read g (freq_map s') =
                  (if g = cf + 1 then dd_read g (freq_map s) @ [k]
                   else if g = cf then remove1 k (dd_read g (freq_map s))
                   else dd_read g (freq_map s))" by simp
    from b have a4: "\<forall>k'. k' \<noteq> k \<longrightarrow> get_key_frequency k' s' = get_key_frequency k' s"
      by (simp add: get_key_frequency_def)
    from b have a5: "min_freq s' =
                 (if remove1 k (dd_read cf (freq_map s)) = [] \<and> cf = min_freq s then cf + 1
                  else min_freq s)" by auto
    show ?thesis
      by (rule exI[of _ cf], rule exI[of _ s']) (intro conjI a1 r a2 a3 a4 a5)
  qed
  have present: "(\<exists>f r p' s'. get_key_frequency k s = Some f \<and> get k now p = Inr (r, p') \<and>
               variant p' = LFU s' \<and> get_key_frequency k s' = Some (f + 1) \<and>
               (\<forall>g. dd_read g (freq_map s') =
                  (if g = f + 1 then dd_read g (freq_map s) @ [k]
                   else if g = f then remove1 k (dd_read g (freq_map s))
                   else dd_read g (freq_map s))) \<and>
               (\<forall>k'. k' \<noteq> k \<longrightarrow> get_key_frequency k' s' = get_key_frequency k' s) \<and>
               min_freq s' =
                 (if remove1 k (dd_read f (freq_map s)) = [] \<and> f = min_freq s then f + 1
                  else min_freq s)) \<and>
            (\<exists>f p' s'. get_key_frequency k s = Some f \<and> put k v sz now p = Inr p' \<and>
               variant p' = LFU s' \<and> get_key_frequency k s' = Some (f + 1) \<and>
               (\<forall>g. dd_read g (freq_map s') =
                  (if g = f + 1 then dd_read g (freq_map s) @ [k]
                   else if g = f then remove1 k (dd_read g (freq_map s))
                   else dd_read g (freq_map s))) \<and>
               (\<forall>k'. k' \<noteq> k \<longrightarrow> get_key_frequency k' s' = get_key_frequency k' s) \<and>
               min_freq s' =
                 (if remove1 k (dd_read f (freq_map s)) = [] \<and> f = min_freq s then f + 1
                  else min_freq s)) \<and>
            (\<exists>f p' s'. get_key_frequency k s = Some f \<and> delete k p = Inr (True, p') \<and>
               variant p' = LFU s' \<and> get_key_frequency k s' = None \<and>
               (\<forall>g. dd_read g (freq_map s') =
                  (if g = f then remove1 k (dd_read g (freq_map s))
                   else dd_read g (freq_map s))) \<and>
               (\<forall>k'. k' \<noteq> k \<longrightarrow> get_key_frequency k' s' = get_key_frequency k' s))"
    if c: "contains k p"
  proof -
    from c obtain e where e: "map_of (cache p) k = Some e" by (auto simp: contains_def)
    then have kin: "k \<in> ?K" by auto
    from hit[OF kin] obtain f s' where
      a1: "get_key_frequency k s = Some f" and r: "increment_frequency k s = Inr s'" and
      a2: "get_key_frequency k s' = Some (f + 1)" and
      a3: "\<forall>g. dd_read g (freq_map s') =
                  (if g = f + 1 then dd_read g (freq_map s) @ [k]
                   else if g = f then remove1 k (dd_read g (freq_map s))
                   else dd_read g (freq_map s))" and
      a4: "\<forall>k'. k' \<noteq> k \<longrightarrow> get_key_frequency k' s' = get_key_frequency k' s" and
      a5: "min_freq s' =
                 (if remove1 k (dd_read f (freq_map s)) = [] \<and> f = min_freq s then f + 1
                  else min_freq s)" by blast
    from lfu_get_variant[OF assms(2) e r, of now] obtain pg where
      g: "get k now p = Inr (val e, pg)" and vg: "variant pg = LFU s'" by blast
    from lfu_update_variant[OF assms(2) e r, of v sz now] obtain pu where
      u: "put k v sz now p = Inr pu" and vu: "variant pu = LFU s'" by blast
    from lfu_delete_variant[OF assms(2) e] obtain pd where
      d: "delete k p = Inr (True, pd)" and vd: "variant pd = LFU (lfu_on_delete k s)" by blast
    from a1 have cf: "map_of (freq_key s) k = Some f" by (simp add: get_key_frequency_def)
    note b = lfu_on_delete_buckets[OF st kin cf]
    from b have d1: "get_key_frequency k (lfu_on_delete k s) = None"
      by (simp add: get_key_frequency_def)
    from b have d2: "\<forall>g. dd_read g (freq_map (lfu_on_delete k s)) =
                  (if g = f then remove1 k (dd_read g (freq_map s))
                   else dd_read g (freq_map s))" by simp
    from b have d3: "\<forall>k'. k' \<noteq> k \<longrightarrow>
        get_key_frequency k' (lfu_on_delete k s) = get_key_frequency k' s"
      by (simp add: get_key_frequency_def)
    have G: "\<exists>f r p' s'. get_key_frequency k s = Some f \<and> get k now p = Inr (r, p') \<and>
               variant p' = LFU s' \<and> get_key_frequency k s' = Some (f + 1) \<and>
               (\<forall>g. dd_read g (freq_map s') =
                  (if g = f + 1 then dd_read g (freq_map s) @ [k]
                   else if g = f then remove1 k (dd_read g (freq_map s))
                   else dd_read g (freq_map s))) \<and>
               (\<forall>k'. k' \<noteq> k \<longrightarrow> get_key_frequency k' s' = get_key_frequency k' s) \<and>
               min_freq s' =
                 (if remove1 k (dd_read f (freq_map s)) = [] \<and> f = min_freq s then f + 1
                  else min_freq s)"
      by (rule exI[of _ f], rule exI[of _ "val e"], rule exI[of _ pg], rule exI[of _ s'])
         (intro conjI a1 g vg a2 a3 a4 a5)
    have U: "\<exists>f p' s'. get_key_frequency k s = Some f \<and> put k v sz now p = Inr p' \<and>
               variant p' = LFU s' \<and> get_key_frequency k s' = Some (f + 1) \<and>
               (\<forall>g. dd_read g (freq_map s') =
                  (if g = f + 1 then dd_read g (freq_map s) @ [k]
                   else if g = f then remove1 k (dd_read g (freq_map s))
                   else dd_read g (freq_map s))) \<and>
               (\<forall>k'. k' \<noteq> k \<longrightarrow> get_key_frequency k' s' = get_key_frequency k' s) \<and>
               min_freq s' =
                 (if remove1 k (dd_read f (freq_map s)) = [] \<and> f = min_freq s then f + 1
                  else min_freq s)"
      by (rule exI[of _ f], rule exI[of _ pu], rule exI[of _ s'])
         (intro conjI a1 u vu a2 a3 a4 a5)
    have D: "\<exists>f p' s'. get_key_frequency k s = Some f \<and> delete k p = Inr (True, p') \<and>
               variant p' = LFU s' \<and> get_key_frequency k s' = None \<and>
               (\<forall>g. dd_read g (freq_map s') =
                  (if g = f then remove1 k (dd_read g (freq_map s))
                   else dd_read g (freq_map s))) \<and>
               (\<forall>k'. k' \<noteq> k \<longrightarrow> get_key_frequency k' s' = get_key_frequency k' s)"
      by (rule exI[of _ f], rule exI[of _ pd], rule exI[of _ "lfu_on_delete k s"])
         (intro conjI a1 d vd d1 d2 d3)
    from G U D show ?thesis by (intro conjI)
  qed
  have full: "\<exists>x rest p1 p' s'. min_freq s \<noteq> 0 \<and>
               dd_read (min_freq s) (freq_map s) = x # rest \<and>
               get_key_frequency x s = Some (min_freq s) \<and>
               (\<forall>k' f'. get_key_frequency k' s = Some f' \<longrightarrow> min_freq s \<le> f') \<and>
               contains x p \<and> evict p = Inr p1 \<and> cache p1 = AList.delete x (cache p) \<and>
               put k v sz now p = Inr p' \<and> \<not> contains x p' \<and>
               (\<forall>k'. k' \<noteq> x \<and> contains k' p \<longrightarrow> contains k' p') \<and>
               variant p' = LFU s' \<and>
               (\<forall>g. dd_read g (freq_map s') =
                  (if g = 1 then (if min_freq s = 1 then rest else dd_read 1 (freq_map s)) @ [k]
                   else if g = min_freq s then rest
                   else dd_read g (freq_map s))) \<and>
               get_key_frequency x s' = None \<and>
               (\<forall>k'. k' \<noteq> k \<and> k' \<noteq> x \<longrightarrow>
                  get_key_frequency k' s' = get_key_frequency k' s) \<and>
               get_key_frequency k s' = Some 1 \<and> min_freq s' = 1"
    if nc: "\<not> contains k p" and f: "is_full p"
  proof -
    from nc have k: "map_of (cache p) k = None" by (simp add: contains_def)
    then have kn: "k \<notin> ?K" by auto
    from inv have b: "base_inv p" by (simp add: pinv_def)
    from b f have "int (length (cache p)) = capacity p" "0 < capacity p"
      by (simp_all add: base_inv_def is_full_def current_size_def)
    then have "cache p \<noteq> []" by auto
    then have ne: "?K \<noteq> {}" by (cases "cache p") auto
    from lfu_evict_buckets[OF li ne, of p] obtain x rest s1 where
      m0: "min_freq s \<noteq> 0" and rd: "dd_read (min_freq s) (freq_map s) = x # rest" and
      x: "x \<in> ?K" and
      le: "lfu_evict s p =
             Inr (count_eviction (p\<lparr>cache := AList.delete x (cache p), variant := LFU s1\<rparr>))" and
      st1: "lfu_struct (?K - {x}) s1" and
      bk: "\<forall>g. dd_read g (freq_map s1) =
              (if g = min_freq s then rest else dd_read g (freq_map s))" and
      fk: "map_of (freq_key s1) = (map_of (freq_key s))(x := None)" by blast
    define p1 where "p1 = count_eviction (p\<lparr>cache := AList.delete x (cache p), variant := LFU s1\<rparr>)"
    from le assms(2) have ev: "evict p = Inr p1" by (simp add: evict_def p1_def)
    have c1: "cache p1 = AList.delete x (cache p)" by (simp add: p1_def count_eviction_def)
    have v1: "variant p1 = LFU s1" by (simp add: p1_def count_eviction_def)
    from lfu_insert_variant[OF v1, of k v sz now] obtain p' where
      ie: "insert_entry k v sz now p1 = Inr p'" and vp: "variant p' = LFU (lfu_on_insert k s1)" and
      cp: "cache p' = AList.update k (new_entry k v sz now) (cache p1)" by blast
    from ie ev k f have pr: "put k v sz now p = Inr p'" by (simp add: put_def)
    from x kn have xk: "x \<noteq> k" by auto
    from kn have kn1: "k \<notin> ?K - {x}" by simp
    note b1 = lfu_on_insert_buckets[OF st1 kn1]
    from rd have inb: "x \<in> set (dd_read (min_freq s) (freq_map s))" by simp
    then obtain c where "map_of (freq_map s) (min_freq s) = Some c" "x \<in> set c"
      by (auto simp: in_dd_read)
    with st have fx: "get_key_frequency x s = Some (min_freq s)"
      unfolding lfu_struct_def get_key_frequency_def by blast
    have least: "\<forall>k' f'. get_key_frequency k' s = Some f' \<longrightarrow> min_freq s \<le> f'"
      using lfu_min_freq_le[OF li] by (simp add: get_key_frequency_def)
    from x have cx: "contains x p" by (simp add: contains_dom)
    have nx: "\<not> contains x p'"
      using xk by (simp add: cp c1 contains_def update_conv' delete_conv')
    have keep: "\<forall>k'. k' \<noteq> x \<and> contains k' p \<longrightarrow> contains k' p'"
      by (auto simp: cp c1 contains_def update_conv' delete_conv')
    have bs: "\<forall>g. dd_read g (freq_map (lfu_on_insert k s1)) =
                  (if g = 1 then (if min_freq s = 1 then rest else dd_read 1 (freq_map s)) @ [k]
                   else if g = min_freq s then rest
                   else dd_read g (freq_map s))"
      using b1 bk by simp
    have gx: "get_key_frequency x (lfu_on_insert k s1) = None"
      using b1 fk xk by (simp add: get_key_frequency_def)
    have others: "\<forall>k'. k' \<noteq> k \<and> k' \<noteq> x \<longrightarrow>
                  get_key_frequency k' (lfu_on_insert k s1) = get_key_frequency k' s"
      using b1 fk by (simp add: get_key_frequency_def)
    from b1 have nk: "get_key_frequency k (lfu_on_insert k s1) = Some 1"
      "min_freq (lfu_on_insert k s1) = 1"
      by (simp_all add: get_key_frequency_def)
    show ?thesis
      by (rule exI[of _ x], rule exI[of _ rest], rule exI[of _ p1], rule exI[of _ p'],
          rule exI[of _ "lfu_on_insert k s1"])
         (intro conjI m0 rd fx least cx ev c1 pr nx keep vp bs gx others nk)
  qed
  have new: "\<exists>p' s' b. put k v sz now p = Inr p' \<and> variant p' = LFU s' \<and>
               get_key_frequency k s' = Some 1 \<and> min_freq s' = 1 \<and>
               dd_read 1 (freq_map s') = b @ [k]" if nc: "\<not> contains k p"
  proof (cases "is_full p")
    case False
    from room[OF nc False] obtain p' s' where
      pr: "put k v sz now p = Inr p'" and vp: "variant p' = LFU s'" and
      bk: "\<forall>g. dd_read g (freq_map s') =
                  (if g = 1 then dd_read g (freq_map s) @ [k] else dd_read g (freq_map s))" and
      nk: "get_key_frequency k s' = Some 1" "min_freq s' = 1" by blast
    from bk have "dd_read 1 (freq_map s') = dd_read 1 (freq_map s) @ [k]" by simp
    with pr vp nk show ?thesis by blast
  next
    case True
    from full[OF nc True] obtain rest p' s' where
      pr: "put k v sz now p = Inr p'" and vp: "variant p' = LFU s'" and
      bk: "\<forall>g. dd_read g (freq_map s') =
                  (if g = 1 then (if min_freq s = 1 then rest else dd_read 1 (freq_map s)) @ [k]
                   else if g = min_freq s then rest
                   else dd_read g (freq_map s))" and
      nk: "get_key_frequency k s' = Some 1" "min_freq s' = 1" by blast
    from bk have "dd_read 1 (freq_map s') =
        (if min_freq s = 1 then rest else dd_read 1 (freq_map s)) @ [k]" by simp
    with pr vp nk show ?thesis by blast
  qed
  have room': "\<exists>p' s'. put k v sz now p = Inr p' \<and> variant p' = LFU s' \<and>
               (\<forall>g. dd_read g (freq_map s') =
                  (if g = 1 then dd_read g (freq_map s) @ [k] else dd_read g (freq_map s))) \<and>
               (\<forall>k'. k' \<noteq> k \<longrightarrow> get_key_frequency k' s' = get_key_frequency k' s)"
    if "\<not> contains k p \<and> \<not> is_full p"
    using room that by blast
  have full': "\<exists>x rest p1 p' s'. min_freq s \<noteq> 0 \<and>
               dd_read (min_freq s) (freq_map s) = x # rest \<and>
               get_key_frequency x s = Some (min_freq s) \<and>
               (\<forall>k' f'. get_key_frequency k' s = Some f' \<longrightarrow> min_freq s \<le> f') \<and>
               contains x p \<and> evict p = Inr p1 \<and> cache p1 = AList.delete x (cache p) \<and>
               put k v sz now p = Inr p' \<and> \<not> contains x p' \<and>
               (\<forall>k'. k' \<noteq> x \<and> contains k' p \<longrightarrow> contains k' p') \<and>
               variant p' = LFU s' \<and>
               (\<forall>g. dd_read g (freq_map s') =
                  (if g = 1 then (if min_freq s = 1 then rest else dd_read 1 (freq_map s)) @ [k]
                   else if g = min_freq s then rest
                   else dd_read g (freq_map s))) \<and>
               get_key_frequency x s' = None \<and>
               (\<forall>k'. k' \<noteq> k \<and> k' \<noteq> x \<longrightarrow>
                  get_key_frequency k' s' = get_key_frequency k' s)"
    if "\<not> contains k p \<and> is_full p"
  proof -
    from that full obtain x rest p1 p' s' where
      "min_freq s \<noteq> 0"
      "dd_read (min_freq s) (freq_map s) = x # rest"
      "get_key_frequency x s = Some (min_freq s)"
      "\<forall>k' f'. get_key_frequency k' s = Some f' \<longrightarrow> min_freq s \<le> f'"
      "contains x p" "evict p = Inr p1" "cache p1 = AList.delete x (cache p)"
      "put k v sz now p = Inr p'" "\<not> contains x p'"
      "\<forall>k'. k' \<noteq> x \<and> contains k' p \<longrightarrow> contains k' p'"
      "variant p' = LFU s'"
      "\<forall>g. dd_read g (freq_map s') =
                  (if g = 1 then (if min_freq s = 1 then rest else dd_read 1 (freq_map s)) @ [k]
                   else if g = min_freq s then rest
                   else dd_read g (freq_map s))"
      "get_key_frequency x s' = None"
      "\<forall>k'. k' \<noteq> k \<and> k' \<noteq> x \<longrightarrow> get_key_frequency k' s' = get_key_frequency k' s"
      by blast
    then show ?thesis
      by - (rule exI[of _ x], rule exI[of _ rest], rule exI[of _ p1], rule exI[of _ p'],
          rule exI[of _ s'], intro conjI)
  qed
  show ?thesis
  proof (intro conjI impI)
    assume "\<not> contains k p" then show "\<exists>p' s' b. put k v sz now p = Inr p' \<and> variant p' = LFU s' \<and>
               get_key_frequency k s' = Some 1 \<and> min_freq s' = 1 \<and>
               dd_read 1 (freq_map s') = b @ [k]" by (rule new)
  next
    assume "\<not> contains k p \<and> \<not> is_full p" then show "\<exists>p' s'. put k v sz now p = Inr p' \<and> variant p' = LFU s' \<and>
               (\<forall>g. dd_read g (freq_map s') =
                  (if g = 1 then dd_read g (freq_map s) @ [k] else dd_read g (freq_map s))) \<and>
               (\<forall>k'. k' \<noteq> k \<longrightarrow> get_key_frequency k' s' = get_key_frequency k' s)"
      by (rule room')
  next
    assume c: "contains k p"
    from present[OF c] show "\<exists>f r p' s'. get_key_frequency k s = Some f \<and> get k now p = Inr (r, p') \<and>
               variant p' = LFU s' \<and> get_key_frequency k s' = Some (f + 1) \<and>
               (\<forall>g. dd_read g (freq_map s') =
                  (if g = f + 1 then dd_read g (freq_map s) @ [k]
                   else if g = f then remove1 k (dd_read g (freq_map s))
                   else dd_read g (freq_map s))) \<and>
               (\<forall>k'. k' \<noteq> k \<longrightarrow> get_key_frequency k' s' = get_key_frequency k' s) \<and>
               min_freq s' =
                 (if remove1 k (dd_read f (freq_map s)) = [] \<and> f = min_freq s then f + 1
                  else min_freq s)" by (rule conjunct1)
    from present[OF c] show "\<exists>f p' s'. get_key_frequency k s = Some f \<and> put k v sz now p = Inr p' \<and>
               variant p' = LFU s' \<and> get_key_frequency k s' = Some (f + 1) \<and>
               (\<forall>g. dd_read g (freq_map s') =
                  (if g = f + 1 then dd_read g (freq_map s) @ [k]
                   else if g = f then remove1 k (dd_read g (freq_map s))
                   else dd_read g (freq_map s))) \<and>
               (\<forall>k'. k' \<noteq> k \<longrightarrow> get_key_frequency k' s' = get_key_frequency k' s) \<and>
               min_freq s' =
                 (if remove1 k (dd_read f (freq_map s)) = [] \<and> f = min_freq s then f + 1
                  else min_freq s)" by (rule conjunct1[OF conjunct2])
    from present[OF c] show "\<exists>f p' s'. get_key_frequency k s = Some f \<and> delete k p = Inr (True, p') \<and>
               variant p' = LFU s' \<and> get_key_frequency k s' = None \<and>
               (\<forall>g. dd_read g (freq_map s') =
                  (if g = f then remove1 k (dd_read g (freq_map s))
                   else dd_read g (freq_map s))) \<and>
               (\<forall>k'. k' \<noteq> k \<longrightarrow> get_key_frequency k' s' = get_key_frequency k' s)"
      by (rule conjunct2[OF conjunct2])
  next
    assume "\<not> contains k p \<and> is_full p" then show "\<exists>x rest p1 p' s'. min_freq s \<noteq> 0 \<and>
               dd_read (min_freq s) (freq_map s) = x # rest \<and>
               get_key_frequency x s = Some (min_freq s) \<and>
               (\<forall>k' f'. get_key_frequency k' s = Some f' \<longrightarrow> min_freq s \<le> f') \<and>
               contains x p \<and> evict p = Inr p1 \<and> cache p1 = AList.delete x (cache p) \<and>
               put k v sz now p = Inr p' \<and> \<not> contains x p' \<and>
               (\<forall>k'. k' \<noteq> x \<and> contains k' p \<longrightarrow> contains k' p') \<and>
               variant p' = LFU s' \<and>
               (\<forall>g. dd_read g (freq_map s') =
                  (if g = 1 then (if min_freq s = 1 then rest else dd_read 1 (freq_map s)) @ [k]
                   else if g = min_freq s then rest
                   else dd_read g (freq_map s))) \<and>
               get_key_frequency x s' = None \<and>
               (\<forall>k'. k' \<noteq> k \<and> k' \<noteq> x \<longrightarrow>
                  get_key_frequency k' s' = get_key_frequency k' s)"
      by (rule full')
  qed
qed

theorem C5_lfu_witness:
  "reachable example_lfu_mixed9 \<and>
   variant example_lfu_mixed9 =
     LFU \<lparr>freq_map = [(2, [2]), (1, [4]), (4, [1])], freq_key = [(1, 4), (2, 2), (4, 1)],
          min_freq = 1\<rparr> \<and>
   contains 4 example_lfu_mixed9 \<and>
   (\<exists>r p' s'. get 4 8 example_lfu_mixed9 = Inr (r, p') \<and> variant p' = LFU s' \<and>
        get_key_frequency 4 s' = Some 2 \<and> get_key_frequency 2 s' = Some 2 \<and>
        get_key_frequency 1 s' = Some 4 \<and>
        dd_read 1 (freq_map s') = [] \<and> dd_read 2 (freq_map s') = [2, 4] \<and>
        dd_read 4 (freq_map s') = [1] \<and> min_freq s' = 2 \<and> peek_lfu s' = Some 2) \<and>
   reachable example_lfu_mixed \<and>
   variant example_lfu_mixed =
     LFU \<lparr>freq_map = [(2, [2, 4]), (4, [1])], freq_key = [(1, 4), (2, 2), (4, 2)],
          min_freq = 2\<rparr> \<and>
   \<not> contains 5 example_lfu_mixed \<and> is_full example_lfu_mixed \<and>
   (\<exists>p1 p' s'. evict example_lfu_mixed = Inr p1 \<and>
        cache p1 = AList.delete 2 (cache example_lfu_mixed) \<and>
        put 5 (PyVal 5) 1 9 example_lfu_mixed = Inr p' \<and>
        \<not> contains 2 p' \<and> contains 1 p' \<and> contains 4 p' \<and> variant p' = LFU s' \<and>
        dd_read 1 (freq_map s') = [5] \<and> dd_read 2 (freq_map s') = [4] \<and>
        dd_read 4 (freq_map s') = [1] \<and> get_key_frequency 2 s' = None \<and>
        get_key_frequency 4 s' = Some 2)"
proof -
  let ?s9 = "\<lparr>freq_map = [(2, [2]), (1, [4]), (4, [1])], freq_key = [(1::nat, 4), (2, 2), (4, 1)],
          min_freq = 1\<rparr>"
  let ?s10 = "\<lparr>freq_map = [(2, [2, 4]), (4, [1])], freq_key = [(1::nat, 4), (2, 2), (4, 2)],
          min_freq = 2\<rparr>"
  note r9 = example_lfu_mixed9_reachable
  note r10 = example_lfu_mixed_reachable
  have v9: "variant example_lfu_mixed9 = LFU ?s9" by (simp add: example_lfu_mixed9_value)
  have v10: "variant example_lfu_mixed = LFU ?s10" by (simp add: example_lfu_mixed_value)
  have c4: "contains 4 example_lfu_mixed9"
    by (simp add: example_lfu_mixed9_value contains_def)
  have h10: "\<not> contains 5 example_lfu_mixed \<and> is_full example_lfu_mixed"
    by (simp add: example_lfu_mixed_value contains_def is_full_def current_size_def)
  have c10: "contains 1 example_lfu_mixed" "contains 4 example_lfu_mixed"
    by (simp_all add: example_lfu_mixed_value contains_def)
  have e9: "get_key_frequency 4 ?s9 = Some 1" "get_key_frequency 2 ?s9 = Some 2"
    "get_key_frequency 1 ?s9 = Some 4"
    "dd_read 1 (freq_map ?s9) = [4]" "dd_read 2 (freq_map ?s9) = [2]"
    "dd_read 4 (freq_map ?s9) = [1]" "min_freq ?s9 = 1"
    by (simp_all add: get_key_frequency_def dd_read_def)
  have e10: "dd_read 1 (freq_map ?s10) = []" "dd_read 2 (freq_map ?s10) = [2, 4]"
    "dd_read 4 (freq_map ?s10) = [1]" "min_freq ?s10 = 2"
    "get_key_frequency 4 ?s10 = Some 2"
    by (simp_all add: get_key_frequency_def dd_read_def)
  note T9 = C5_lfu[OF r9 v9, where k = 4 and v = "PyVal 4" and sz = 1 and now = 8]
  from T9[THEN conjunct2, THEN conjunct2, THEN conjunct1, THEN mp, OF c4, THEN conjunct1]
  obtain f r p' s' where
    f: "get_key_frequency 4 ?s9 = Some f" and g: "get 4 8 example_lfu_mixed9 = Inr (r, p')" and
    vp: "variant p' = LFU s'" and f4: "get_key_frequency 4 s' = Some (f + 1)" and
    bk: "\<forall>g. dd_read g (freq_map s') =
           (if g = f + 1 then dd_read g (freq_map ?s9) @ [4]
            else if g = f then remove1 4 (dd_read g (freq_map ?s9))
            else dd_read g (freq_map ?s9))" and
    ot: "\<forall>k'. k' \<noteq> 4 \<longrightarrow> get_key_frequency k' s' = get_key_frequency k' ?s9" and
    mn: "min_freq s' =
           (if remove1 4 (dd_read f (freq_map ?s9)) = [] \<and> f = min_freq ?s9 then f + 1
            else min_freq ?s9)"
    by blast
  from f have f1: "f = 1" unfolding e9 by simp
  from f4 have g4: "get_key_frequency 4 s' = Some 2" unfolding f1 by simp
  from ot[THEN spec, of 2] have g2: "get_key_frequency 2 s' = Some 2" unfolding e9 by simp
  from ot[THEN spec, of 1] have g1: "get_key_frequency 1 s' = Some 4" unfolding e9 by simp
  from bk[THEN spec, of 1] have b1: "dd_read 1 (freq_map s') = []" unfolding f1 e9 by simp
  from bk[THEN spec, of 2] have b2: "dd_read 2 (freq_map s') = [2, 4]" unfolding f1 e9 by simp
  from bk[THEN spec, of 4] have b4: "dd_read 4 (freq_map s') = [1]" unfolding f1 e9 by simp
  from mn have m2: "min_freq s' = 2" unfolding f1 e9 by simp
  from m2 b2 have pk: "peek_lfu s' = Some 2" by (simp add: peek_lfu_def)
  have G: "\<exists>r p' s'. get 4 8 example_lfu_mixed9 = Inr (r, p') \<and> variant p' = LFU s' \<and>
        get_key_frequency 4 s' = Some 2 \<and> get_key_frequency 2 s' = Some 2 \<and>
        get_key_frequency 1 s' = Some 4 \<and>
        dd_read 1 (freq_map s') = [] \<and> dd_read 2 (freq_map s') = [2, 4] \<and>
        dd_read 4 (freq_map s') = [1] \<and> min_freq s' = 2 \<and> peek_lfu s' = Some 2"
    by (rule exI[of _ r], rule exI[of _ p'], rule exI[of _ s'])
       (intro conjI g vp g4 g2 g1 b1 b2 b4 m2 pk)
  note T10 = C5_lfu[OF r10 v10, where k = 5 and v = "PyVal 5" and sz = 1 and now = 9]
  from T10[THEN conjunct2, THEN conjunct2, THEN conjunct2, THEN mp, OF h10]
  obtain x rest p1 q s2 where
    rd: "dd_read (min_freq ?s10) (freq_map ?s10) = x # rest" and
    ev: "evict example_lfu_mixed = Inr p1" and
    c1: "cache p1 = AList.delete x (cache example_lfu_mixed)" and
    pr: "put 5 (PyVal 5) 1 9 example_lfu_mixed = Inr q" and nx: "\<not> contains x q" and
    keep: "\<forall>k'. k' \<noteq> x \<and> contains k' example_lfu_mixed \<longrightarrow> contains k' q" and
    vq: "variant q = LFU s2" and
    bq: "\<forall>g. dd_read g (freq_map s2) =
           (if g = 1 then (if min_freq ?s10 = 1 then rest else dd_read 1 (freq_map ?s10)) @ [5]
            else if g = min_freq ?s10 then rest
            else dd_read g (freq_map ?s10))" and
    gx: "get_key_frequency x s2 = None" and
    oq: "\<forall>k'. k' \<noteq> 5 \<and> k' \<noteq> x \<longrightarrow> get_key_frequency k' s2 = get_key_frequency k' ?s10"
    by blast
  from rd have xr: "x = 2" "rest = [4]" unfolding e10 by simp_all
  from c1 have c1': "cache p1 = AList.delete 2 (cache example_lfu_mixed)" unfolding xr .
  from nx have nx': "\<not> contains 2 q" unfolding xr .
  from gx have gx': "get_key_frequency 2 s2 = None" unfolding xr .
  from keep c10 have k1: "contains 1 q" and k4: "contains 4 q" unfolding xr by simp_all
  from bq[THEN spec, of 1] have q1: "dd_read 1 (freq_map s2) = [5]" unfolding xr e10 by simp
  from bq[THEN spec, of 2] have q2: "dd_read 2 (freq_map s2) = [4]" unfolding xr e10 by simp
  from bq[THEN spec, of 4] have q4: "dd_read 4 (freq_map s2) = [1]" unfolding xr e10 by simp
  from oq[THEN spec, of 4] have o4: "get_key_frequency 4 s2 = Some 2" unfolding xr e10 by simp
  have P: "\<exists>p1 p' s'. evict example_lfu_mixed = Inr p1 \<and>
        cache p1 = AList.delete 2 (cache example_lfu_mixed) \<and>
        put 5 (PyVal 5) 1 9 example_lfu_mixed = Inr p' \<and>
        \<not> contains 2 p' \<and> contains 1 p' \<and> contains 4 p' \<and> variant p' = LFU s' \<and>
        dd_read 1 (freq_map s') = [5] \<and> dd_read 2 (freq_map s') = [4] \<and>
        dd_read 4 (freq_map s') = [1] \<and> get_key_frequency 2 s' = None \<and>
        get_key_frequency 4 s' = Some 2"
    by (rule exI[of _ p1], rule exI[of _ q], rule exI[of _ s2])
       (intro conjI ev c1' pr nx' k1 k4 vq q1 q2 q4 gx' o4)
  from h10 have h10a: "\<not> contains 5 example_lfu_mixed" and h10b: "is_full example_lfu_mixed"
    by simp_all
  show ?thesis by (intro conjI r9 v9 c4 G r10 v10 h10a h10b P)
qed

subsection \<open>Claim C6\<close>

text \<open>
  C6 (as amended). On any policy instance, \<open>get\<close> of a present key returns the stored value,
  adds one to \<open>hits\<close> and leaves \<open>misses\<close> alone; under LRU and LFU it sets the entry's
  timestamp to the current time and adds one to its access count, under FIFO it leaves the
  entry as it was. \<open>get\<close> of an absent key returns \<open>None\<close> without raising, adds one to
  \<open>misses\<close> and changes nothing else.
\<close>

theorem C6_get:
  assumes "reachable p"
  shows "(\<forall>e. map_of (cache p) k = Some e \<longrightarrow>
            (\<exists>p'. get k now p = Inr (val e, p') \<and>
               hits (stats p') = hits (stats p) + 1 \<and> misses (stats p') = misses (stats p) \<and>
               map_of (cache p') k =
                 Some (if (\<exists>s. variant p = FIFO s) then e
                       else e\<lparr>timestamp := now, access_count := access_count e + 1\<rparr>))) \<and>
         (map_of (cache p) k = None \<longrightarrow>
            get k now p = Inr (PyNone, p\<lparr>stats := (stats p)\<lparr>misses := misses (stats p) + 1\<rparr>\<rparr>))"
proof (intro conjI allI impI)
  fix e assume e: "map_of (cache p) k = Some e"
  from get_hit[OF reachable_pinv[OF assms] e, of now] obtain v' p' where
    g: "get k now p = Inr (val e, p')" and
    p': "p' = p\<lparr>stats := (stats p)\<lparr>hits := hits (stats p) + 1\<rparr>,
                  cache := accessed k now (variant p) (cache p), variant := v'\<rparr>" by blast
  have "map_of (cache p') k =
          Some (if (\<exists>s. variant p = FIFO s) then e
                else e\<lparr>timestamp := now, access_count := access_count e + 1\<rparr>)"
    using e by (auto simp: p' accessed_lookup touch_def)
  with g show "\<exists>p'. get k now p = Inr (val e, p') \<and>
               hits (stats p') = hits (stats p) + 1 \<and> misses (stats p') = misses (stats p) \<and>
               map_of (cache p') k =
                 Some (if (\<exists>s. variant p = FIFO s) then e
                       else e\<lparr>timestamp := now, access_count := access_count e + 1\<rparr>)"
    by (auto simp: p')
next
  assume "map_of (cache p) k = None"
  then show "get k now p = Inr (PyNone, p\<lparr>stats := (stats p)\<lparr>misses := misses (stats p) + 1\<rparr>\<rparr>)"
    by (rule get_miss)
qed

theorem C6_get_witness:
  "reachable example_lfu_full \<and>
   map_of (cache example_lfu_full) 1 =
     Some \<lparr>key = 1, val = PyVal 10, timestamp = 2, access_count = 2, entry_size = 1\<rparr> \<and>
   map_of (cache example_lfu_full) 7 = None \<and>
   (\<exists>p'. get 1 5 example_lfu_full = Inr (PyVal 10, p') \<and> hits (stats p') = 2 \<and>
      misses (stats p') = 0 \<and>
      map_of (cache p') 1 =
        Some \<lparr>key = 1, val = PyVal 10, timestamp = 5, access_count = 3, entry_size = 1\<rparr>) \<and>
   get 7 5 example_lfu_full =
     Inr (PyNone, example_lfu_full\<lparr>stats := (stats example_lfu_full)\<lparr>misses := 1\<rparr>\<rparr>)"
proof -
  let ?e = "\<lparr>key = 1::nat, val = PyVal (10::nat), timestamp = 2, access_count = 2, entry_size = 1\<rparr>"
  have h: "map_of (cache example_lfu_full) 1 = Some ?e" "map_of (cache example_lfu_full) 7 = None"
    "hits (stats example_lfu_full) = 1" "misses (stats example_lfu_full) = 0"
    "\<not> (\<exists>s. variant example_lfu_full = FIFO s)"
    by (simp_all add: example_lfu_full_value)
  from C6_get[OF example_lfu_full_reachable, of 1 5] h
  have g1: "\<exists>p'. get 1 5 example_lfu_full = Inr (PyVal 10, p') \<and> hits (stats p') = 2 \<and>
      misses (stats p') = 0 \<and>
      map_of (cache p') 1 =
        Some \<lparr>key = 1, val = PyVal 10, timestamp = 5, access_count = 3, entry_size = 1\<rparr>"
    by auto
  from C6_get[OF example_lfu_full_reachable, of 7 5] h
  have g2: "get 7 5 example_lfu_full =
     Inr (PyNone, example_lfu_full\<lparr>stats := (stats example_lfu_full)\<lparr>misses := 1\<rparr>\<rparr>)"
    by simp
  show ?thesis by (intro conjI) (rule example_lfu_full_reachable h(1) h(2) g1 g2)+
qed

text \<open>
  The claim as stated fails under FIFO: after \<open>put(1, 10)\<close> at time 0 and \<open>get(1)\<close> at
  time 5 the hit is counted, but the entry still has timestamp 0 and access count 1.
\<close>

theorem C6_fifo_counterexample:
  "run [Put 1 (PyVal 10) 1 0, Get 1 5] example_fifo =
     Inr \<lparr>capacity = 1, name = ''FIFO'',
          cache = [(1, \<lparr>key = 1, val = PyVal 10, timestamp = 0, access_count = 1, entry_size = 1\<rparr>)],
          stats = \<lparr>hits = 1, misses = 0, evictions = 0, current_size_stat = 1, max_size = 1\<rparr>,
          variant = FIFO \<lparr>insertion_queue = [1]\<rparr>\<rparr>"
  by (simp add: example_fifo_def put_def get_def is_full_def current_size_def insert_entry_def
        on_insert_def on_access_def fifo_on_insert_def Let_def)

subsection \<open>Claim C7\<close>

text \<open>
  C7. In a reachable LRU policy: right after a \<open>get\<close> or a \<open>put\<close> of a key already present,
  \<open>peek_mru()\<close> is that key; and when a new key is put into a full cache, the key that
  disappears is the one \<open>peek_lru()\<close> returned just before, every other key stays and the
  new key becomes the most recently used.
\<close>

theorem C7_lru:
  assumes "reachable p" and "variant p = LRU s"
  shows "(contains k p \<longrightarrow>
            (\<exists>r p' s'. get k now p = Inr (r, p') \<and> variant p' = LRU s' \<and>
               peek_mru s' = Inr (Some k)) \<and>
            (\<exists>p' s'. put k v sz now p = Inr p' \<and> variant p' = LRU s' \<and>
               peek_mru s' = Inr (Some k))) \<and>
         (\<not> contains k p \<and> is_full p \<longrightarrow>
            (\<exists>x p' s'. peek_lru s = Inr (Some x) \<and> contains x p \<and>
               put k v sz now p = Inr p' \<and> \<not> contains x p' \<and> contains k p' \<and>
               (\<forall>k'. k' \<noteq> x \<and> contains k' p \<longrightarrow> contains k' p') \<and>
               variant p' = LRU s' \<and> peek_mru s' = Inr (Some k)))"
proof -
  from assms(1) have inv: "pinv p" by (rule reachable_pinv)
  have old: "(\<exists>r p' s'. get k now p = Inr (r, p') \<and> variant p' = LRU s' \<and>
               peek_mru s' = Inr (Some k)) \<and>
            (\<exists>p' s'. put k v sz now p = Inr p' \<and> variant p' = LRU s' \<and>
               peek_mru s' = Inr (Some k))" if "contains k p"
  proof -
    from that obtain e where e: "map_of (cache p) k = Some e" by (auto simp: contains_def)
    from get_hit[OF inv e, of now] assms(2) have
      "\<exists>r p' s'. get k now p = Inr (r, p') \<and> variant p' = LRU s' \<and> peek_mru s' = Inr (Some k)"
      by (auto simp: access_post_def)
    moreover from put_update[OF inv e, of v sz now] assms(2) have
      "\<exists>p' s'. put k v sz now p = Inr p' \<and> variant p' = LRU s' \<and> peek_mru s' = Inr (Some k)"
      by (auto simp: access_post_def)
    ultimately show ?thesis by blast
  qed
  have full: "\<exists>x p' s'. peek_lru s = Inr (Some x) \<and> contains x p \<and>
               put k v sz now p = Inr p' \<and> \<not> contains x p' \<and> contains k p' \<and>
               (\<forall>k'. k' \<noteq> x \<and> contains k' p \<longrightarrow> contains k' p') \<and>
               variant p' = LRU s' \<and> peek_mru s' = Inr (Some k)"
    if "\<not> contains k p" and f: "is_full p"
  proof -
    from that have k: "map_of (cache p) k = None" by (simp add: contains_def)
    from put_new_full[OF inv k f, of v sz now] obtain x v1 p1 v' p' where
      x: "x \<in> dom (map_of (cache p))" and ep: "evict_post x (variant p)" and
      p1: "p1 = count_eviction (p\<lparr>cache := AList.delete x (cache p), variant := v1\<rparr>)" and
      sk: "same_kind (variant p) v1" and
      pr: "put k v sz now p = Inr p'" and
      p': "p' = p1\<lparr>cache := cache p1 @ [(k, new_entry k v sz now)],
                   stats := (stats p1)\<lparr>current_size_stat := Suc (length (cache p1))\<rparr>,
                   variant := v'\<rparr>" and
      ip: "insert_post k v1 v'" by blast
    from ep assms(2) have pk: "peek_lru s = Inr (Some x)" by (simp add: evict_post_def)
    from sk ip assms(2) obtain s' where s': "v' = LRU s'" "peek_mru s' = Inr (Some k)"
      by (auto simp: same_kind_def insert_post_def)
    have c1: "cache p1 = AList.delete x (cache p)" by (simp add: p1 count_eviction_def)
    from x k have xk: "x \<noteq> k" by auto
    have nx: "\<not> contains x p'" "contains k p'"
      using xk k by (simp_all add: p' c1 contains_def map_of_snoc delete_conv' del: map_of_append)
    have keep: "\<forall>k'. k' \<noteq> x \<and> contains k' p \<longrightarrow> contains k' p'"
      by (auto simp: p' c1 contains_def map_of_snoc delete_conv' simp del: map_of_append)
    have vp: "variant p' = LRU s'" by (simp add: p' s')
    from x have "contains x p" by (simp add: contains_dom)
    with pk pr nx keep vp s'(2) show ?thesis by blast
  qed
  from old full show ?thesis by blast
qed

theorem C7_lru_witness:
  "reachable example_lru_full \<and>
   variant example_lru_full = LRU (the_lru (variant example_lru_full)) \<and>
   contains 1 example_lru_full \<and> \<not> contains 3 example_lru_full \<and> is_full example_lru_full \<and>
   peek_lru (the_lru (variant example_lru_full)) = Inr (Some 2) \<and>
   (\<exists>r p' s'. get 1 3 example_lru_full = Inr (r, p') \<and> variant p' = LRU s' \<and>
        peek_mru s' = Inr (Some 1)) \<and>
   (\<exists>p' s'. put 3 (PyVal 30) 1 3 example_lru_full = Inr p' \<and> \<not> contains 2 p' \<and>
        contains 1 p' \<and> contains 3 p' \<and> variant p' = LRU s' \<and> peek_mru s' = Inr (Some 3))"
proof -
  note f = example_lru_full_facts
  from C7_lru[OF example_lru_full_reachable f(1), where k = 1 and v = "PyVal 30" and sz = 1 and now = 3] f
  have "\<exists>r p' s'. get 1 3 example_lru_full = Inr (r, p') \<and> variant p' = LRU s' \<and>
        peek_mru s' = Inr (Some 1)" by blast
  moreover from C7_lru[OF example_lru_full_reachable f(1), where k = 3 and v = "PyVal 30" and sz = 1 and now = 3] f
  have "\<exists>p' s'. put 3 (PyVal 30) 1 3 example_lru_full = Inr p' \<and> \<not> contains 2 p' \<and>
        contains 1 p' \<and> contains 3 p' \<and> variant p' = LRU s' \<and> peek_mru s' = Inr (Some 3)"
    by auto
  ultimately show ?thesis using example_lru_full_reachable f by blast
qed

subsection \<open>Claim C8\<close>

text \<open>
  C8. In a reachable LFU policy (that is, after every completed public operation): every
  cached key lies in exactly one frequency bucket, once, and that bucket is the one of the
  key's entry in the key-to-frequency map; the buckets hold cached keys only; and
  \<open>min_freq\<close> is 0 when the cache is empty and otherwise the least frequency that has a
  non-empty bucket.
\<close>

theorem C8_lfu_invariant:
  assumes "reachable p" and "variant p = LFU s"
  shows "(\<forall>k. contains k p \<longrightarrow>
            (\<exists>f b. get_key_frequency k s = Some f \<and> (f, b) \<in> set (freq_map s) \<and>
               k \<in> set b \<and> distinct b \<and>
               (\<forall>f' b'. (f', b') \<in> set (freq_map s) \<and> k \<in> set b' \<longrightarrow> f' = f \<and> b' = b))) \<and>
         (\<forall>f b k. (f, b) \<in> set (freq_map s) \<and> k \<in> set b \<longrightarrow> contains k p) \<and>
         (cache p = [] \<longrightarrow> min_freq s = 0) \<and>
         (cache p \<noteq> [] \<longrightarrow>
            (\<exists>b. (min_freq s, b) \<in> set (freq_map s) \<and> b \<noteq> []) \<and>
            (\<forall>f b. (f, b) \<in> set (freq_map s) \<and> b \<noteq> [] \<longrightarrow> min_freq s \<le> f))"
proof -
  let ?K = "dom (map_of (cache p))"
  let ?M = "map_of (freq_map s)" and ?F = "map_of (freq_key s)"
  from reachable_pinv[OF assms(1)] assms(2) have li: "lfu_inv ?K s"
    by (simp add: pinv_def variant_inv_def)
  then have st: "lfu_struct ?K s" and mf: "min_freq_ok s" by (simp_all add: lfu_inv_def)
  from st have bucket: "\<And>f c. ?M f = Some c \<Longrightarrow> c \<noteq> [] \<and> distinct c \<and> 0 < f"
    and link: "\<And>y f. ?F y = Some f \<longleftrightarrow> (\<exists>c. ?M f = Some c \<and> y \<in> set c)"
    and domF: "dom ?F = ?K"
    and dm: "distinct (map fst (freq_map s))"
    unfolding lfu_struct_def by blast+
  have mem: "\<And>f b. (f, b) \<in> set (freq_map s) \<longleftrightarrow> ?M f = Some b"
    using dm by simp
  have a: "\<exists>f b. get_key_frequency k s = Some f \<and> (f, b) \<in> set (freq_map s) \<and>
               k \<in> set b \<and> distinct b \<and>
               (\<forall>f' b'. (f', b') \<in> set (freq_map s) \<and> k \<in> set b' \<longrightarrow> f' = f \<and> b' = b)"
    if "contains k p" for k
  proof -
    from that have "k \<in> ?K" by (simp add: contains_dom)
    from lfu_struct_bucket[OF st this] obtain f b where
      f: "?F k = Some f" and b: "?M f = Some b" and kb: "k \<in> set b" by blast
    have "f' = f \<and> b' = b" if "(f', b') \<in> set (freq_map s)" "k \<in> set b'" for f' b'
    proof -
      from that have m: "?M f' = Some b'" by (simp add: mem)
      with that(2) link[of k f'] have "?F k = Some f'" by blast
      with f have "f' = f" by simp
      with m b show ?thesis by simp
    qed
    moreover have "(f, b) \<in> set (freq_map s)" using b by (simp add: mem)
    moreover have "get_key_frequency k s = Some f" using f by (simp add: get_key_frequency_def)
    moreover have "distinct b" using bucket[OF b] by simp
    ultimately show ?thesis using kb by blast
  qed
  have b: "contains k p" if "(f, b) \<in> set (freq_map s)" "k \<in> set b" for f b k
  proof -
    from that have "?M f = Some b" by (simp add: mem)
    with that(2) link[of k f] have "?F k = Some f" by blast
    then have "k \<in> dom ?F" by blast
    with domF show ?thesis by (simp add: contains_dom)
  qed
  have c: "min_freq s = 0" if "cache p = []"
  proof -
    have "freq_map s = []"
    proof (rule ccontr)
      assume "freq_map s \<noteq> []"
      then obtain f c r where "freq_map s = (f, c) # r" by (cases "freq_map s") auto
      then have m: "(f, c) \<in> set (freq_map s)" by simp
      then have "?M f = Some c" by (simp add: mem)
      from bucket[OF this] obtain y where "y \<in> set c" by (cases c) auto
      from b[OF m this] that show False by (simp add: contains_def)
    qed
    with mf show ?thesis by (simp add: min_freq_ok_def)
  qed
  have d: "(\<exists>b. (min_freq s, b) \<in> set (freq_map s) \<and> b \<noteq> []) \<and>
            (\<forall>f b. (f, b) \<in> set (freq_map s) \<and> b \<noteq> [] \<longrightarrow> min_freq s \<le> f)"
    if "cache p \<noteq> []"
  proof -
    from that obtain k e r where "cache p = (k, e) # r" by (cases "cache p") auto
    then have "k \<in> ?K" by auto
    from lfu_struct_bucket[OF st this] obtain f0 b0 where "?M f0 = Some b0" by blast
    then have ne: "freq_map s \<noteq> []" by auto
    with mf obtain c where c: "?M (min_freq s) = Some c"
      and le: "\<forall>f \<in> dom ?M. min_freq s \<le> f" by (auto simp: min_freq_ok_def)
    from bucket[OF c] c have "\<exists>b. (min_freq s, b) \<in> set (freq_map s) \<and> b \<noteq> []"
      by (auto simp: mem)
    moreover have "\<forall>f b. (f, b) \<in> set (freq_map s) \<and> b \<noteq> [] \<longrightarrow> min_freq s \<le> f"
      using le by (auto simp: mem)
    ultimately show ?thesis by blast
  qed
  show ?thesis
  proof (intro conjI allI impI)
    fix k assume "contains k p"
    then show "\<exists>f b. get_key_frequency k s = Some f \<and> (f, b) \<in> set (freq_map s) \<and>
               k \<in> set b \<and> distinct b \<and>
               (\<forall>f' b'. (f', b') \<in> set (freq_map s) \<and> k \<in> set b' \<longrightarrow> f' = f \<and> b' = b)"
      by (rule a)
  next
    fix f b k assume "(f, b) \<in> set (freq_map s) \<and> k \<in> set b"
    then show "contains k p" using b by blast
  next
    assume "cache p = []"
    then show "min_freq s = 0" by (rule c)
  next
    assume "cache p \<noteq> []"
    from d[OF this] show "\<exists>b. (min_freq s, b) \<in> set (freq_map s) \<and> b \<noteq> []" by blast
  next
    fix f b assume "cache p \<noteq> []" "(f, b) \<in> set (freq_map s) \<and> b \<noteq> []"
    with d show "min_freq s \<le> f" by blast
  qed
qed

theorem C8_lfu_invariant_witness:
  "reachable example_lfu_full \<and>
   variant example_lfu_full =
     LFU \<lparr>freq_map = [(1, [2]), (2, [1])], freq_key = [(1, 2), (2, 1)], min_freq = 1\<rparr> \<and>
   contains 1 example_lfu_full \<and> cache example_lfu_full \<noteq> [] \<and>
   (\<exists>f b. get_key_frequency 1
             \<lparr>freq_map = [(1, [2]), (2, [1])], freq_key = [(1 :: nat, 2), (2, 1)], min_freq = 1\<rparr> = Some f \<and>
          (f, b) \<in> set [(1, [2]), (2, [1 :: nat])] \<and> 1 \<in> set b)"
proof -
  let ?s = "\<lparr>freq_map = [(1, [2]), (2, [1])], freq_key = [(1::nat, 2), (2, 1)], min_freq = 1\<rparr>"
  have v: "variant example_lfu_full = LFU ?s" by (simp add: example_lfu_full_value)
  have h: "contains 1 example_lfu_full" "cache example_lfu_full \<noteq> []"
    by (simp_all add: example_lfu_full_value contains_def)
  from C8_lfu_invariant[OF example_lfu_full_reachable v] h
  have "\<exists>f b. get_key_frequency 1 ?s = Some f \<and> (f, b) \<in> set (freq_map ?s) \<and> 1 \<in> set b"
    by blast
  then have g: "\<exists>f b. get_key_frequency 1 ?s = Some f \<and> (f, b) \<in> set [(1, [2]), (2, [1 :: nat])] \<and>
      1 \<in> set b" by simp
  show ?thesis by (intro conjI) (rule example_lfu_full_reachable v h g)+
qed

subsection \<open>Claim C9\<close>

text \<open>
  C9. Each of the three constructors fails with \<open>ValueError\<close> exactly when the capacity
  is not positive, and then returns no object at all; with a positive capacity it returns a
  fully initialised, empty policy of that capacity.
\<close>

theorem C9_construction:
  "(FIFOCache c n = (Inl ValueError :: error + ('k, 'v) CachePolicy)) = (c \<le> 0) \<and>
   (LRUCache c n = (Inl ValueError :: error + ('k, 'v) CachePolicy)) = (c \<le> 0) \<and>
   (LFUCache c n = (Inl ValueError :: error + ('k, 'v) CachePolicy)) = (c \<le> 0) \<and>
   (0 < c \<longrightarrow>
      (\<exists>p :: ('k, 'v) CachePolicy. FIFOCache c n = Inr p \<and> capacity p = c \<and> name p = n \<and>
           cache p = [] \<and> max_size (stats p) = c \<and> pinv p) \<and>
      (\<exists>p :: ('k, 'v) CachePolicy. LRUCache c n = Inr p \<and> capacity p = c \<and> name p = n \<and>
           cache p = [] \<and> max_size (stats p) = c \<and> pinv p) \<and>
      (\<exists>p :: ('k, 'v) CachePolicy. LFUCache c n = Inr p \<and> capacity p = c \<and> name p = n \<and>
           cache p = [] \<and> max_size (stats p) = c \<and> pinv p))"
proof -
  have a: "(FIFOCache c n = (Inl ValueError :: error + ('k, 'v) CachePolicy)) = (c \<le> 0)"
    "(LRUCache c n = (Inl ValueError :: error + ('k, 'v) CachePolicy)) = (c \<le> 0)"
    "(LFUCache c n = (Inl ValueError :: error + ('k, 'v) CachePolicy)) = (c \<le> 0)"
    by (simp_all add: FIFOCache_def LRUCache_def LFUCache_def init_policy_def)
  have b: "\<exists>p :: ('k, 'v) CachePolicy. mk c n = Inr p \<and> capacity p = c \<and> name p = n \<and>
           cache p = [] \<and> max_size (stats p) = c \<and> pinv p"
    if "0 < c" and "mk = FIFOCache \<or> mk = LRUCache \<or> mk = LFUCache" for mk
  proof -
    from that obtain p :: "('k, 'v) CachePolicy" where p: "mk c n = Inr p"
      by (auto simp: FIFOCache_def LRUCache_def LFUCache_def init_policy_def)
    with that(2) have "constructed p" unfolding constructed_def by blast
    then have "pinv p" by (rule constructed_pinv)
    with p that show ?thesis
      by (auto simp: FIFOCache_def LRUCache_def LFUCache_def init_policy_def split: if_splits)
  qed
  from a b[of FIFOCache] b[of LRUCache] b[of LFUCache] show ?thesis by simp
qed

theorem C9_construction_witness:
  "FIFOCache 0 ''FIFO'' = (Inl ValueError :: error + (nat, nat) CachePolicy) \<and>
   LRUCache (- 1) ''LRUCache'' = (Inl ValueError :: error + (nat, nat) CachePolicy) \<and>
   LFUCache (- 10) ''LFUCache'' = (Inl ValueError :: error + (nat, nat) CachePolicy) \<and>
   (0 :: int) < 2 \<and>
   (\<exists>p :: (nat, nat) CachePolicy. LRUCache 2 ''LRUCache'' = Inr p \<and> capacity p = 2 \<and> cache p = [])"
  using C9_construction[of 0 "''FIFO''", where ?'k = nat and ?'v = nat]
    C9_construction[of "- 1" "''LRUCache''", where ?'k = nat and ?'v = nat]
    C9_construction[of "- 10" "''LFUCache''", where ?'k = nat and ?'v = nat]
    C9_construction[of 2 "''LRUCache''", where ?'k = nat and ?'v = nat]
  by auto

subsection \<open>Claim C10\<close>

text \<open>
  C10. When every level misses, the hierarchy's \<open>get\<close> returns \<open>None\<close> and leaves the global
  latency total as it was, while it adds one to the global miss counter and, at every
  level, that level's latency to the level's own latency total and one to the level's miss
  counter. The reported average latency is the global latency total divided by the number
  of all accesses, so the miss enters it with latency zero. A hit at level \<open>n\<close>, by contrast,
  adds the latencies of the levels 0 to \<open>n\<close> to the global total.
\<close>

theorem C10_miss_latency:
  assumes "hierarchy_ok h"
  shows "((\<forall>l \<in> set (levels h). stored k (lcache l) = PyNone) \<longrightarrow>
           (\<exists>h'. hget k tg tp h = Inr (PyNone, h') \<and>
              total_latency_ms h' = total_latency_ms h \<and>
              total_hits h' = total_hits h \<and> total_misses h' = total_misses h + 1 \<and>
              length (levels h') = length (levels h) \<and>
              (\<forall>j < length (levels h).
                 ls_total_latency_ms (lstats (levels h' ! j)) =
                   ls_total_latency_ms (lstats (levels h ! j)) + latency_ms (levels h ! j) \<and>
                 ls_misses (lstats (levels h' ! j)) = ls_misses (lstats (levels h ! j)) + 1) \<and>
              avg_latency_ms h' = total_latency_ms h / real (total_accesses h + 1))) \<and>
         (\<forall>n v. n < length (levels h) \<and> (\<forall>j < n. stored k (lcache (levels h ! j)) = PyNone) \<and>
                stored k (lcache (levels h ! n)) = v \<and> v \<noteq> PyNone \<longrightarrow>
           (\<exists>h'. hget k tg tp h = Inr (v, h') \<and>
              total_latency_ms h' =
                total_latency_ms h + sum_list (map latency_ms (take (Suc n) (levels h))) \<and>
              total_hits h' = total_hits h + 1 \<and> total_misses h' = total_misses h))"
proof (intro conjI impI allI)
  assume miss: "\<forall>l \<in> set (levels h). stored k (lcache l) = PyNone"
  from hget_miss[OF assms miss, of tg tp] obtain ls' where
    g: "hget k tg tp h = Inr (PyNone, h\<lparr>levels := ls', total_misses := total_misses h + 1\<rparr>)" and
    m: "list_all2 missed (levels h) ls'" by blast
  let ?h' = "h\<lparr>levels := ls', total_misses := total_misses h + 1\<rparr>"
  from m have len: "length ls' = length (levels h)" by (simp add: list_all2_lengthD)
  have lv: "\<forall>j < length (levels h).
                 ls_total_latency_ms (lstats (levels ?h' ! j)) =
                   ls_total_latency_ms (lstats (levels h ! j)) + latency_ms (levels h ! j) \<and>
                 ls_misses (lstats (levels ?h' ! j)) = ls_misses (lstats (levels h ! j)) + 1"
  proof (intro allI impI)
    fix j assume "j < length (levels h)"
    with m have "missed (levels h ! j) (ls' ! j)" by (simp add: list_all2_nthD)
    then show "ls_total_latency_ms (lstats (levels ?h' ! j)) =
                   ls_total_latency_ms (lstats (levels h ! j)) + latency_ms (levels h ! j) \<and>
                 ls_misses (lstats (levels ?h' ! j)) = ls_misses (lstats (levels h ! j)) + 1"
      by (simp add: missed_def)
  qed
  have avg: "avg_latency_ms ?h' = total_latency_ms h / real (total_accesses h + 1)"
    by (simp add: avg_latency_ms_def total_accesses_def)
  from g len lv avg
  show "\<exists>h'. hget k tg tp h = Inr (PyNone, h') \<and>
              total_latency_ms h' = total_latency_ms h \<and>
              total_hits h' = total_hits h \<and> total_misses h' = total_misses h + 1 \<and>
              length (levels h') = length (levels h) \<and>
              (\<forall>j < length (levels h).
                 ls_total_latency_ms (lstats (levels h' ! j)) =
                   ls_total_latency_ms (lstats (levels h ! j)) + latency_ms (levels h ! j) \<and>
                 ls_misses (lstats (levels h' ! j)) = ls_misses (lstats (levels h ! j)) + 1) \<and>
              avg_latency_ms h' = total_latency_ms h / real (total_accesses h + 1)"
    by (intro exI[of _ ?h']) simp
next
  fix n v
  assume a: "n < length (levels h) \<and> (\<forall>j < n. stored k (lcache (levels h ! j)) = PyNone) \<and>
                stored k (lcache (levels h ! n)) = v \<and> v \<noteq> PyNone"
  then have n: "n < length (levels h)" and b: "\<forall>j < n. stored k (lcache (levels h ! j)) = PyNone"
    and at: "stored k (lcache (levels h ! n)) = v" and v: "v \<noteq> PyNone" by simp_all
  from hget_hit[OF assms n b at v, of tg tp]
  show "\<exists>h'. hget k tg tp h = Inr (v, h') \<and>
              total_latency_ms h' =
                total_latency_ms h + sum_list (map latency_ms (take (Suc n) (levels h))) \<and>
              total_hits h' = total_hits h + 1 \<and> total_misses h' = total_misses h" by blast
qed

theorem C10_miss_latency_witness:
  "hierarchy_ok example_h3 \<and> length (levels example_h3) = 3 \<and>
   stored 9 (lcache (levels example_h3 ! 0)) = PyNone \<and>
   stored 9 (lcache (levels example_h3 ! 1)) = PyNone \<and>
   stored 9 (lcache (levels example_h3 ! 2)) = PyNone \<and>
   (\<exists>h'. hget 9 (at_time 5) (at_time 6) example_h3 = Inr (PyNone, h') \<and>
      total_latency_ms h' = 0 \<and> total_misses h' = 1 \<and>
      ls_total_latency_ms (lstats (levels h' ! 0)) = 1 \<and>
      ls_total_latency_ms (lstats (levels h' ! 1)) = 5 \<and>
      ls_total_latency_ms (lstats (levels h' ! 2)) = 20 \<and> avg_latency_ms h' = 0) \<and>
   (\<exists>h'. hget 1 (at_time 5) (at_time 6) example_h3 = Inr (PyVal 10, h') \<and>
      total_latency_ms h' = 26 \<and> total_hits h' = 1)"
proof -
  note s = example_h3_stored
  have z: "total_latency_ms example_h3 = 0" "total_misses example_h3 = 0"
    "total_hits example_h3 = 0"
    "ls_total_latency_ms (lstats (levels example_h3 ! 0)) = 0"
    "ls_total_latency_ms (lstats (levels example_h3 ! 1)) = 0"
    "ls_total_latency_ms (lstats (levels example_h3 ! 2)) = 0"
    "latency_ms (levels example_h3 ! 0) = 1" "latency_ms (levels example_h3 ! 1) = 5"
    "latency_ms (levels example_h3 ! 2) = 20"
    "sum_list (map latency_ms (take (Suc 2) (levels example_h3))) = 26"
    by (simp_all add: example_h3_def example_level_def new_level_stats_def)
  have b: "\<forall>j < 2. stored 1 (lcache (levels example_h3 ! j)) = PyNone"
    using s by (simp add: less_Suc_eq numeral_2_eq_2)
  from C10_miss_latency[OF example_h3_ok, of 9 "at_time 5" "at_time 6"] s(5) obtain h' where
    g: "hget 9 (at_time 5) (at_time 6) example_h3 = Inr (PyNone, h')" and
    t: "total_latency_ms h' = total_latency_ms example_h3"
    "total_misses h' = total_misses example_h3 + 1" and
    lv: "\<forall>j < length (levels example_h3).
           ls_total_latency_ms (lstats (levels h' ! j)) =
             ls_total_latency_ms (lstats (levels example_h3 ! j)) + latency_ms (levels example_h3 ! j) \<and>
           ls_misses (lstats (levels h' ! j)) = ls_misses (lstats (levels example_h3 ! j)) + 1" and
    av: "avg_latency_ms h' = total_latency_ms example_h3 / real (total_accesses example_h3 + 1)"
    by blast
  from lv s(4) z have "ls_total_latency_ms (lstats (levels h' ! 0)) = 1"
    "ls_total_latency_ms (lstats (levels h' ! 1)) = 5"
    "ls_total_latency_ms (lstats (levels h' ! 2)) = 20" by simp_all
  with g t av z have a1: "\<exists>h'. hget 9 (at_time 5) (at_time 6) example_h3 = Inr (PyNone, h') \<and>
      total_latency_ms h' = 0 \<and> total_misses h' = 1 \<and>
      ls_total_latency_ms (lstats (levels h' ! 0)) = 1 \<and>
      ls_total_latency_ms (lstats (levels h' ! 1)) = 5 \<and>
      ls_total_latency_ms (lstats (levels h' ! 2)) = 20 \<and> avg_latency_ms h' = 0"
    by (intro exI[of _ h']) simp
  have l: "(2::nat) < length (levels example_h3)" using s(4) by simp
  from C10_miss_latency[OF example_h3_ok, of 1 "at_time 5" "at_time 6"]
  have "2 < length (levels example_h3) \<and>
        (\<forall>j < 2. stored 1 (lcache (levels example_h3 ! j)) = PyNone) \<and>
        stored 1 (lcache (levels example_h3 ! 2)) = PyVal 10 \<and> (PyVal 10 :: nat py) \<noteq> PyNone \<longrightarrow>
        (\<exists>h'. hget 1 (at_time 5) (at_time 6) example_h3 = Inr (PyVal 10, h') \<and>
           total_latency_ms h' =
             total_latency_ms example_h3 + sum_list (map latency_ms (take (Suc 2) (levels example_h3))) \<and>
           total_hits h' = total_hits example_h3 + 1 \<and> total_misses h' = total_misses example_h3)"
    by blast
  with l b s(3) obtain h2 where
    "hget 1 (at_time 5) (at_time 6) example_h3 = Inr (PyVal 10, h2)"
    "total_latency_ms h2 =
       total_latency_ms example_h3 + sum_list (map latency_ms (take (Suc 2) (levels example_h3)))"
    "total_hits h2 = total_hits example_h3 + 1" by auto
  with z have a2: "\<exists>h'. hget 1 (at_time 5) (at_time 6) example_h3 = Inr (PyVal 10, h') \<and>
      total_latency_ms h' = 26 \<and> total_hits h' = 1"
    by (intro exI[of _ h2]) simp
  have s9: "stored 9 (lcache (levels example_h3 ! 0)) = PyNone"
    "stored 9 (lcache (levels example_h3 ! 1)) = PyNone"
    "stored 9 (lcache (levels example_h3 ! 2)) = PyNone"
    using s(5) s(4) by simp_all
  show ?thesis by (intro conjI) (rule example_h3_ok s(4) s9 a1 a2)+
qed

end
